theory Spec2Isabelle
  imports Complex_Main
begin

section \<open>Data model of \<open>cmd/font2go/webfont.go\<close>\<close>

text \<open>
  Go strings are byte sequences; \<^typ>\<open>string\<close> is a list of 8-bit characters, so
  \<^const>\<open>length\<close>, \<^const>\<open>drop\<close> and \<^const>\<open>tl\<close> are Go's \<open>len(s)\<close>, \<open>s[n:]\<close> and
  \<open>s[1:]\<close>. The element type \<open>'f\<close> of \<open>Parameters\<close> stands for \<open>float64\<close>.
  A pointer field (\<open>*string\<close>) is an \<open>option\<close>, \<open>None\<close> being \<open>nil\<close>.
\<close>

record 'f PathStep =
  Command :: string
  Parameters :: "'f list"

record 'f Glyph =
  HorizAdvX :: int
  Unicode :: "string option"
  D :: "string option"
  DOrig :: "string option"
  GerberLP :: "string option"
  PathSteps :: "'f PathStep list"

section \<open>The three regular expressions\<close>

text \<open>
  Go's \<open>regexp\<close> classes: \<open>\s\<close> is \<open>[\t\n\f\r ]\<close>, \<open>\d\<close> is \<open>[0-9]\<close>, and the
  bracket expression \<open>[,\s+]\<close> holds the comma, the \<open>\s\<close> characters and the plus sign
  (inside brackets \<open>+\<close> is a literal).
\<close>

definition is_space :: "char \<Rightarrow> bool" where
  "is_space c \<longleftrightarrow> c \<in> {CHR 0x09, CHR 0x0A, CHR 0x0C, CHR 0x0D, CHR '' ''}"

definition is_digit :: "char \<Rightarrow> bool" where
  "is_digit c \<longleftrightarrow> c \<in> set ''0123456789''"

definition is_sep :: "char \<Rightarrow> bool" where
  "is_sep c \<longleftrightarrow> c = CHR '','' \<or> is_space c \<or> c = CHR ''+''"

text \<open>
  The capture group \<open>(-?\d+\.?\d*)\<close> at the start of \<open>d\<close>: every piece is greedy and
  only \<open>\d+\<close> can fail, so the match is the longest one, or there is none.
\<close>

definition num_prefix :: "string \<Rightarrow> string option" where
  "num_prefix d =
     (let sgn = (if take 1 d = ''-'' then ''-'' else []);
          r1 = drop (length sgn) d;
          ds = takeWhile is_digit r1;
          r2 = dropWhile is_digit r1;
          dot = (if take 1 r2 = ''.'' then ''.'' else []);
          fs = takeWhile is_digit (drop (length dot) r2)
      in if ds = [] then None else Some (sgn @ ds @ dot @ fs))"

text \<open>
  One round \<open>\s*(-?\d+\.?\d*)[,\s+]?\<close>: the text matched and the text captured.
\<close>

definition num_group :: "string \<Rightarrow> (string \<times> string) option" where
  "num_group d =
     (let ws = takeWhile is_space d;
          r0 = dropWhile is_space d
      in case num_prefix r0 of
           None \<Rightarrow> None
         | Some tok \<Rightarrow>
             (let sep = (case drop (length tok) r0 of
                           [] \<Rightarrow> []
                         | c # _ \<Rightarrow> if is_sep c then [c] else [])
              in Some (ws @ tok @ sep, tok)))"

text \<open>
  \<open>FindStringSubmatch\<close> returns \<open>nil\<close> (here \<open>[]\<close>) when there is no match, and
  otherwise the whole match followed by the text of each capture group.
\<close>

definition numRE :: "string \<Rightarrow> string list" where
  "numRE d = (case num_group d of None \<Rightarrow> [] | Some (m0, m1) \<Rightarrow> [m0, m1])"

definition closeRE :: "string \<Rightarrow> string list" where
  "closeRE d =
     (case d of
        [] \<Rightarrow> []
      | c # r \<Rightarrow> if c = CHR ''z'' \<or> c = CHR ''Z'' then [c # takeWhile is_space r, [c]] else [])"

text \<open>
  The repetition \<open>(?:\<dots>)+\<close> of \<open>cmdRE\<close>: as many rounds as match, at least one; the
  result is the text matched and the last round's capture.
\<close>

function num_groups :: "string \<Rightarrow> (string \<times> string) option" where
  "num_groups d =
     (case num_group d of
        None \<Rightarrow> None
      | Some (m0, tok) \<Rightarrow>
          (case num_groups (drop (length m0) d) of
             None \<Rightarrow> Some (m0, tok)
           | Some (ms, last_tok) \<Rightarrow> Some (m0 @ ms, last_tok)))"
  by pat_completeness auto
termination
proof (relation "measure length")
  show "wf (measure length)" by simp
next
  fix d :: string and x2 m0 tok
  assume "num_group d = Some x2" and "(m0, tok) = x2"
  then have "m0 \<noteq> [] \<and> d \<noteq> []"
    by (auto simp: num_group_def num_prefix_def Let_def split: option.splits if_splits)
  then show "(drop (length m0) d, d) \<in> measure length"
    by (cases m0; cases d) auto
qed

declare num_groups.simps [simp del]

text \<open>
  The letter class \<open>(?i)[mlhvcsqta]\<close>. Under \<open>(?i)\<close> Go closes a class under Unicode
  simple case folding, which adds to the eighteen ASCII letters the long s (U+017F,
  folding to \<open>s\<close>), two bytes \<open>C5 BF\<close> in UTF-8.
\<close>

definition cmd_letter :: "string \<Rightarrow> string" where
  "cmd_letter d =
     (if d \<noteq> [] \<and> hd d \<in> set ''mlhvcsqtaMLHVCSQTA'' then take 1 d
      else if take 2 d = [CHR 0xC5, CHR 0xBF] then take 2 d
      else [])"

definition cmdRE :: "string \<Rightarrow> string list" where
  "cmdRE d =
     (let l = cmd_letter d
      in if l = [] then []
         else case num_groups (drop (length l) d) of
                None \<Rightarrow> []
              | Some (run, last_tok) \<Rightarrow> [l @ run, l, last_tok])"

section \<open>Float conversion\<close>

text \<open>
  \<open>strconv.ParseFloat(s, 64)\<close> belongs to Go's standard library. Its documented
  behaviour on a plain decimal literal (an optional sign, digits with at most one dot, at
  least one digit) is written out: the literal denotes a rational number; when that number
  lies at or beyond \<open>2^1024 - 2^970\<close> (the largest \<open>float64\<close> plus half a unit in the
  last place) the call returns \<open>ErrRange\<close>, and otherwise it returns the nearest
  \<open>float64\<close> and no error. The rounding itself, and the literals of other shapes
  (exponents, hexadecimal, \<open>inf\<close>, \<open>nan\<close>, underscores), are left to the parameter.
\<close>

datatype NumError = ErrSyntax | ErrRange

record 'f strconv =
  nearest64 :: "bool \<Rightarrow> rat \<Rightarrow> 'f"
  other_literal :: "string \<Rightarrow> NumError + 'f"

definition digits_value :: "string \<Rightarrow> int" where
  "digits_value ds = foldl (\<lambda>v c. 10 * v + (of_char c - 48)) 0 ds"

definition float64_overflow :: int where
  "float64_overflow = 2 ^ 1024 - 2 ^ 970"

definition ParseFloat :: "'f strconv \<Rightarrow> string \<Rightarrow> NumError + 'f" where
  "ParseFloat lib s =
     (let neg = (take 1 s = ''-'');
          body = (if take 1 s = ''-'' \<or> take 1 s = ''+'' then drop 1 s else s);
          ip = takeWhile is_digit body;
          r = dropWhile is_digit body;
          fp = (if take 1 r = ''.'' then drop 1 r else r)
      in if ip @ fp \<noteq> [] \<and> list_all is_digit fp
         then if float64_overflow \<le> digits_value ip then Inl ErrRange
              else Inr (nearest64 lib neg (of_int (digits_value (ip @ fp)) / 10 ^ length fp))
         else other_literal lib s)"

section \<open>The parser\<close>

text \<open>\<open>log.Fatalf\<close> writes its message and ends the process; the three call sites.\<close>

datatype fatal =
  UnknownPathCommand string
  | UnableToParseFloat string
  | ParseParamsUnable string

definition atof :: "'f strconv \<Rightarrow> string \<Rightarrow> fatal + 'f" where
  "atof lib s = (case ParseFloat lib s of Inl err \<Rightarrow> Inl (UnableToParseFloat s) | Inr v \<Rightarrow> Inr v)"

text \<open>The loop of \<open>parseParams\<close>, with the named result \<open>result\<close> as accumulator.\<close>

function parseParams_loop :: "'f strconv \<Rightarrow> string \<Rightarrow> 'f list \<Rightarrow> fatal + 'f list" where
  "parseParams_loop lib d result =
     (if length d > 0 then
        if length (numRE d) = 2 then
          (case atof lib (numRE d ! 1) of
             Inl e \<Rightarrow> Inl e
           | Inr v \<Rightarrow> parseParams_loop lib (drop (length (numRE d ! 0)) d) (result @ [v]))
        else Inl (ParseParamsUnable d)
      else Inr result)"
  by pat_completeness auto
termination
proof (relation "measure (\<lambda>(lib, d, result). length d)")
  show "wf (measure (\<lambda>(lib :: 'f strconv, d :: string, result :: 'f list). length d))" by simp
next
  fix lib :: "'f strconv" and d :: string and result :: "'f list" and v :: 'f
  assume "0 < length d" and "length (numRE d) = 2"
  then have "numRE d ! 0 \<noteq> []"
    by (auto simp: numRE_def num_group_def num_prefix_def Let_def split: option.splits if_splits)
  with \<open>0 < length d\<close>
  show "((lib, drop (length (numRE d ! 0)) d, result @ [v]), (lib, d, result))
          \<in> measure (\<lambda>(lib, d, result). length d)"
    by (cases "numRE d ! 0"; cases d) auto
qed

declare parseParams_loop.simps [simp del]

definition parseParams :: "'f strconv \<Rightarrow> string \<Rightarrow> fatal + 'f list" where
  "parseParams lib d = parseParams_loop lib d []"

text \<open>
  The scanning loop of \<open>ParsePath\<close> over the unconsumed text \<open>d\<close>, the steps appended to
  \<open>g.PathSteps\<close> so far and the counter \<open>numZs\<close>. It ends with the fatal error, if any,
  and the steps and the counter reached.
\<close>

function ParsePath_loop ::
  "'f strconv \<Rightarrow> string \<Rightarrow> 'f PathStep list \<Rightarrow> nat \<Rightarrow> fatal option \<times> 'f PathStep list \<times> nat" where
  "ParsePath_loop lib d steps numZs =
     (if length d > 0 then
        if length (closeRE d) = 2 then
          ParsePath_loop lib (drop (length (closeRE d ! 0)) d)
            (steps @ [\<lparr>Command = closeRE d ! 1, Parameters = []\<rparr>]) (numZs + 1)
        else if length (cmdRE d) \<ge> 3 then
          (case parseParams lib (tl (cmdRE d ! 0)) of
             Inl e \<Rightarrow> (Some e, steps, numZs)
           | Inr ps \<Rightarrow>
               ParsePath_loop lib (drop (length (cmdRE d ! 0)) d)
                 (steps @ [\<lparr>Command = cmdRE d ! 1, Parameters = ps\<rparr>]) numZs)
        else (Some (UnknownPathCommand d), steps, numZs)
      else (None, steps, numZs))"
  by pat_completeness auto
termination
proof (relation "measure (\<lambda>(lib, d, steps, numZs). length d)")
  show "wf (measure (\<lambda>(lib :: 'f strconv, d :: string, steps :: 'f PathStep list, numZs :: nat).
          length d))" by simp
next
  fix lib :: "'f strconv" and d :: string and steps :: "'f PathStep list" and numZs :: nat
  assume "0 < length d" and "length (closeRE d) = 2"
  then have "closeRE d ! 0 \<noteq> []"
    by (auto simp: closeRE_def split: list.splits if_splits)
  with \<open>0 < length d\<close>
  show "((lib, drop (length (closeRE d ! 0)) d,
          steps @ [\<lparr>Command = closeRE d ! 1, Parameters = []\<rparr>], numZs + 1),
         (lib, d, steps, numZs)) \<in> measure (\<lambda>(lib, d, steps, numZs). length d)"
    by (cases "closeRE d ! 0"; cases d) auto
next
  fix lib :: "'f strconv" and d :: string and steps :: "'f PathStep list" and numZs :: nat
    and ps :: "'f list"
  assume "0 < length d" and "3 \<le> length (cmdRE d)"
  then have "cmdRE d ! 0 \<noteq> []"
    by (auto simp: cmdRE_def Let_def split: option.splits if_splits)
  with \<open>0 < length d\<close>
  show "((lib, drop (length (cmdRE d ! 0)) d,
          steps @ [\<lparr>Command = cmdRE d ! 1, Parameters = ps\<rparr>], numZs),
         (lib, d, steps, numZs)) \<in> measure (\<lambda>(lib, d, steps, numZs). length d)"
    by (cases "cmdRE d ! 0"; cases d) auto
qed

declare ParsePath_loop.simps [simp del]

text \<open>
  What a call leaves behind: how it ended, the lines written by \<open>log.Printf\<close> (format
  and arguments), and the glyph. A \<open>nil\<close> dereference panics.
\<close>

datatype exit = Returned | Exited fatal | Panicked

datatype log_line =
  UsingDOrig string
  | MismatchNil string nat
  | Mismatch string nat string

definition ParsePath ::
  "'f strconv \<Rightarrow> 'f Glyph option \<Rightarrow> exit \<times> log_line list \<times> 'f Glyph option" where
  "ParsePath lib gp =
     (case gp of
        None \<Rightarrow> (Returned, [], None)
      | Some g \<Rightarrow>
          (case D g of
             None \<Rightarrow> (Returned, [], Some g)
           | Some d0 \<Rightarrow>
               (let useOrig = (case DOrig g of None \<Rightarrow> False | Some orig \<Rightarrow> orig \<noteq> [])
                in if useOrig \<and> Unicode g = None then (Panicked, [], Some g)
                   else
                     (let log1 = (if useOrig then [UsingDOrig (the (Unicode g))] else []);
                          d = (if useOrig then the (DOrig g) else d0);
                          (err, steps, numZs) = ParsePath_loop lib d (PathSteps g) 0;
                          g' = g\<lparr>PathSteps := steps\<rparr>
                      in case err of
                           Some e \<Rightarrow> (Exited e, log1, Some g')
                         | None \<Rightarrow>
                             if numZs > 1 \<and>
                                (case GerberLP g of None \<Rightarrow> True | Some lp \<Rightarrow> length lp \<noteq> numZs)
                             then (case GerberLP g of
                                     None \<Rightarrow>
                                       (case Unicode g of
                                          None \<Rightarrow> (Panicked, log1, Some g')
                                        | Some u \<Rightarrow> (Returned, log1 @ [MismatchNil u numZs], Some g'))
                                   | Some lp \<Rightarrow>
                                       (case Unicode g of
                                          None \<Rightarrow> (Panicked, log1, Some g')
                                        | Some u \<Rightarrow> (Returned, log1 @ [Mismatch u numZs lp], Some g')))
                             else (Returned, log1, Some g')))))"

text \<open>
  An instance of the library parameter for concrete inputs: the rationals stand for
  \<open>float64\<close> (no rounding), and every literal that is not a plain decimal is a syntax
  error.
\<close>

definition exact_lib :: "rat strconv" where
  "exact_lib =
     \<lparr>nearest64 = (\<lambda>neg m. if neg then - m else m), other_literal = (\<lambda>s. Inl ErrSyntax)\<rparr>"

section \<open>Shapes of input text\<close>

text \<open>
  The pieces of a number, \<open>-?\<close>, \<open>\d+\<close>, \<open>\.?\<close> and \<open>\d*\<close>: the fraction digits
  need the dot.
\<close>

definition number_parts :: "string \<Rightarrow> string \<Rightarrow> string \<Rightarrow> string \<Rightarrow> bool" where
  "number_parts sg ds dot fs \<longleftrightarrow>
     (sg = [] \<or> sg = ''-'') \<and> ds \<noteq> [] \<and> list_all is_digit ds \<and>
     (dot = [] \<and> fs = [] \<or> dot = ''.'' \<and> list_all is_digit fs)"

text \<open>
  A greedy scan ends a number before the text \<open>y\<close> when \<open>y\<close> does not go on with a
  digit, nor with the dot when the number has none; and it ends a round after the separator
  \<open>sep\<close>, or without one when \<open>y\<close> does not start with a separator character.
\<close>

definition stops :: "string \<Rightarrow> string \<Rightarrow> bool" where
  "stops dot y \<longleftrightarrow> y = [] \<or> \<not> is_digit (hd y) \<and> (dot = [] \<longrightarrow> hd y \<noteq> CHR ''.'')"

definition sep_ok :: "string \<Rightarrow> string \<Rightarrow> string \<Rightarrow> bool" where
  "sep_ok dot sep y \<longleftrightarrow>
     (\<exists>c. sep = [c] \<and> is_sep c) \<or> sep = [] \<and> stops dot y \<and> (y = [] \<or> \<not> is_sep (hd y))"

text \<open>
  A text starts a number when it begins with a digit, or with a minus and a digit.
\<close>

definition starts_number :: "string \<Rightarrow> bool" where
  "starts_number r \<longleftrightarrow>
     (case r of
        [] \<Rightarrow> False
      | c # r' \<Rightarrow>
          is_digit c \<or> c = CHR ''-'' \<and> (case r' of [] \<Rightarrow> False | c' # _ \<Rightarrow> is_digit c'))"

text \<open>
  A signed decimal, as a test on a whole string: an optional minus, digits, and then
  nothing or a dot and digits.
\<close>

definition signed_decimal :: "string \<Rightarrow> bool" where
  "signed_decimal t \<longleftrightarrow>
     (let b = (if take 1 t = ''-'' then drop 1 t else t);
          r = dropWhile is_digit b
      in takeWhile is_digit b \<noteq> [] \<and>
         (r = [] \<or> take 1 r = ''.'' \<and> list_all is_digit (drop 1 r)))"

text \<open>
  A numeric run given by its rounds (white space, number, separator). Where a round has
  no separator, it is the last one or the next round starts at once with a negative number,
  so that the numbers do not run into each other.
\<close>

fun run_ok :: "(string \<times> string \<times> string) list \<Rightarrow> bool" where
  "run_ok [] = True"
| "run_ok ((ws, tok, sep) # es) =
     (list_all is_space ws \<and> signed_decimal tok \<and>
      (sep = [] \<or> length sep = 1 \<and> is_sep (hd sep)) \<and>
      (sep = [] \<longrightarrow> (case es of [] \<Rightarrow> True | (ws', tok', _) # _ \<Rightarrow> ws' = [] \<and> take 1 tok' = ''-'')) \<and>
      run_ok es)"

definition run_text :: "(string \<times> string \<times> string) list \<Rightarrow> string" where
  "run_text es = concat (map (\<lambda>(ws, tok, sep). ws @ tok @ sep) es)"

text \<open>A text of close commands: each a letter followed by white space.\<close>

definition close_text :: "(char \<times> string) list \<Rightarrow> string" where
  "close_text bs = concat (map (\<lambda>(z, ws). z # ws) bs)"

section \<open>Facts about the scanners\<close>

subsection \<open>Numbers and rounds\<close>

text \<open>
  A greedy scan over a text that is a run of accepted characters followed by a stopper
  takes exactly the run. From this, each scanner is characterised in both directions: a
  text of the right shape is matched as such, and a match has that shape.
\<close>

lemma span_exact:
  "list_all P xs \<Longrightarrow> ys = [] \<or> \<not> P (hd ys) \<Longrightarrow>
     takeWhile P (xs @ ys) = xs \<and> dropWhile P (xs @ ys) = ys"
  by (cases ys) (auto simp: list_all_iff)

lemma not_digit_simps [simp]:
  "\<not> is_digit CHR ''-''" "\<not> is_digit CHR ''.''" "\<not> is_space CHR ''-''" "\<not> is_space CHR ''.''"
  by (simp_all add: is_digit_def is_space_def)

lemma digit_not_space: "is_digit c \<Longrightarrow> \<not> is_space c"
  by (auto simp: is_digit_def is_space_def)

lemma sep_not_digit: "is_sep c \<Longrightarrow> \<not> is_digit c \<and> c \<noteq> CHR ''.'' \<and> c \<noteq> CHR ''-''"
  by (auto simp: is_sep_def is_digit_def is_space_def)

lemma num_prefix_SomeI:
  assumes "number_parts sg ds dot fs" and "stops dot y"
  shows "num_prefix (sg @ ds @ dot @ fs @ y) = Some (sg @ ds @ dot @ fs)"
proof -
  from assms(1) have ds: "ds \<noteq> []" "list_all is_digit ds" and hd: "is_digit (hd ds)"
    by (auto simp: number_parts_def list_all_iff)
  then have nm: "hd ds \<noteq> CHR ''-''" by auto
  have sgeq: "(if take 1 (sg @ ds @ dot @ fs @ y) = ''-'' then ''-'' else []) = sg"
    using assms(1) ds nm by (cases ds) (auto simp: number_parts_def)
  have st2: "y = [] \<or> \<not> is_digit (hd y)" using assms(2) by (auto simp: stops_def)
  have fsd: "list_all is_digit fs" using assms(1) by (auto simp: number_parts_def)
  have tk2: "takeWhile is_digit (fs @ y) = fs" using span_exact [OF fsd st2] by auto
  show ?thesis
  proof (cases "dot = []")
    case True
    then have fs: "fs = []" using assms(1) by (auto simp: number_parts_def)
    have tk: "takeWhile is_digit (ds @ y) = ds" "dropWhile is_digit (ds @ y) = y"
      using span_exact [OF ds(2) st2] by auto
    have nd: "take 1 y \<noteq> ''.''" using assms(2) True by (cases y) (auto simp: stops_def)
    have ty: "takeWhile is_digit y = []" using st2 by (cases y) auto
    have sgeq': "(if take 1 (sg @ ds @ y) = ''-'' then ''-'' else []) = sg"
      using sgeq True fs by simp
    show ?thesis
      unfolding num_prefix_def Let_def True fs append_Nil append_Nil2 sgeq'
      using ds(1) nd by (simp add: tk ty)
  next
    case False
    then have dot: "dot = ''.''" using assms(1) by (auto simp: number_parts_def)
    have st1: "CHR ''.'' # fs @ y = [] \<or> \<not> is_digit (hd (CHR ''.'' # fs @ y))" by simp
    have tk: "takeWhile is_digit (ds @ CHR ''.'' # fs @ y) = ds"
      "dropWhile is_digit (ds @ CHR ''.'' # fs @ y) = CHR ''.'' # fs @ y"
      using span_exact [OF ds(2) st1] by auto
    have sgeq': "(if take 1 (sg @ ds @ CHR ''.'' # fs @ y) = ''-'' then ''-'' else []) = sg"
      using sgeq dot by simp
    show ?thesis
      unfolding num_prefix_def Let_def dot append_Cons append_Nil sgeq'
      using ds(1) by (simp add: tk tk2)
  qed
qed

lemma num_prefix_SomeD:
  assumes "num_prefix d = Some t"
  shows "\<exists>sg ds dot fs y. d = t @ y \<and> t = sg @ ds @ dot @ fs \<and> number_parts sg ds dot fs \<and> stops dot y"
proof -
  define sg where "sg = (if take 1 d = ''-'' then ''-'' else [])"
  define r1 where "r1 = drop (length sg) d"
  define ds where "ds = takeWhile is_digit r1"
  define r2 where "r2 = dropWhile is_digit r1"
  define dot where "dot = (if take 1 r2 = ''.'' then ''.'' else [])"
  define r3 where "r3 = drop (length dot) r2"
  define fs where "fs = takeWhile is_digit r3"
  define y where "y = dropWhile is_digit r3"
  from assms have nz: "ds \<noteq> []" and t: "t = sg @ ds @ dot @ fs"
    by (auto simp: num_prefix_def Let_def sg_def r1_def ds_def r2_def dot_def r3_def fs_def split: if_splits)
  have d1: "d = sg @ r1" unfolding r1_def sg_def by (cases d) auto
  have d2: "r1 = ds @ r2" by (simp add: ds_def r2_def)
  have d3: "r2 = dot @ r3" unfolding r3_def dot_def by (cases r2) auto
  have d4: "r3 = fs @ y" by (simp add: fs_def y_def)
  have a: "list_all is_digit ds" "list_all is_digit fs"
    by (auto simp: ds_def fs_def list_all_iff dest: set_takeWhileD)
  have ynd: "y = [] \<or> \<not> is_digit (hd y)" unfolding y_def using hd_dropWhile [of is_digit r3] by auto
  have r2nd: "r2 = [] \<or> \<not> is_digit (hd r2)" unfolding r2_def using hd_dropWhile [of is_digit r1] by auto
  have nodot: "dot = [] \<Longrightarrow> fs = [] \<and> y = r2 \<and> (y = [] \<or> hd y \<noteq> CHR ''.'')"
  proof -
    assume e: "dot = []"
    then have "r3 = r2" by (simp add: r3_def)
    moreover have "take 1 r2 \<noteq> ''.''" using e by (auto simp: dot_def split: if_splits)
    ultimately show ?thesis using r2nd 
      by (cases r2) (auto simp: fs_def y_def)
  qed
  have np: "number_parts sg ds dot fs"
    unfolding number_parts_def using nz a nodot by (auto simp: sg_def dot_def)
  have st: "stops dot y" unfolding stops_def using ynd nodot by auto
  have "d = t @ y" using d1 d2 d3 d4 t by simp
  with t np st show ?thesis by blast
qed

lemma num_group_SomeI:
  assumes ws: "list_all is_space ws" and np: "number_parts sg ds dot fs"
    and so: "sep_ok dot sep y"
  shows "num_group (ws @ (sg @ ds @ dot @ fs) @ sep @ y) = Some (ws @ (sg @ ds @ dot @ fs) @ sep, sg @ ds @ dot @ fs)"
proof -
  let ?tok = "sg @ ds @ dot @ fs"
  from np have ds: "ds \<noteq> []" "is_digit (hd ds)" by (auto simp: number_parts_def list_all_iff)
  have "?tok \<noteq> []" using ds by simp
  moreover have "hd ?tok = CHR ''-'' \<or> hd ?tok = hd ds"
    using np ds by (auto simp: number_parts_def)
  ultimately have "(?tok @ sep @ y) = [] \<or> \<not> is_space (hd (?tok @ sep @ y))"
    using ds(2) digit_not_space by (auto simp del: append_assoc)
  from span_exact [OF ws this]
  have tk: "takeWhile is_space (ws @ ?tok @ sep @ y) = ws"
    "dropWhile is_space (ws @ ?tok @ sep @ y) = ?tok @ sep @ y" by auto
  have st: "stops dot (sep @ y)"
    using so sep_not_digit by (auto simp: sep_ok_def stops_def)
  have pre: "num_prefix (?tok @ sep @ y) = Some ?tok"
    using num_prefix_SomeI [OF np st] by simp
  have sp: "(case drop (length ?tok) (?tok @ sep @ y) of [] \<Rightarrow> [] | c # _ \<Rightarrow> if is_sep c then [c] else []) = sep"
    using so by (cases y) (auto simp: sep_ok_def simp del: append_assoc)
  show ?thesis
    unfolding num_group_def Let_def tk pre option.case sp by simp
qed

lemma num_group_SomeD:
  assumes "num_group d = Some (m0, tok)"
  shows "\<exists>ws sg ds dot fs sep y. d = m0 @ y \<and> m0 = ws @ tok @ sep \<and> tok = sg @ ds @ dot @ fs \<and>
           list_all is_space ws \<and> number_parts sg ds dot fs \<and> sep_ok dot sep y"
proof -
  define ws where "ws = takeWhile is_space d"
  define r0 where "r0 = dropWhile is_space d"
  have ng: "num_group d =
      (case num_prefix r0 of
         None \<Rightarrow> None
       | Some t \<Rightarrow>
           Some (ws @ t @ (case drop (length t) r0 of
                             [] \<Rightarrow> []
                           | c # _ \<Rightarrow> if is_sep c then [c] else []), t))"
    by (auto simp: num_group_def Let_def ws_def r0_def split: option.splits)
  from assms have pre: "num_prefix r0 = Some tok"
    unfolding ng by (cases "num_prefix r0") auto
  from num_prefix_SomeD [OF pre] obtain sg ds dot fs y0 where
    r0: "r0 = tok @ y0" and tok: "tok = sg @ ds @ dot @ fs"
    and np: "number_parts sg ds dot fs" and st: "stops dot y0" by (elim exE conjE)
  define sep where "sep = (case y0 of [] \<Rightarrow> [] | c # _ \<Rightarrow> if is_sep c then [c] else [])"
  define y where "y = drop (length sep) y0"
  have y0: "y0 = sep @ y" unfolding y_def sep_def by (cases y0) auto
  have dr: "drop (length tok) r0 = y0" using r0 by simp
  have "num_group d = Some (ws @ tok @ sep, tok)"
    unfolding ng pre option.case dr sep_def ..
  with assms have m0: "m0 = ws @ tok @ sep" by simp
  have d: "d = ws @ r0" by (simp add: ws_def r0_def)
  have wsa: "list_all is_space ws" by (auto simp: ws_def list_all_iff dest: set_takeWhileD)
  have so: "sep_ok dot sep y"
  proof (cases y0)
    case Nil
    then have "sep = []" "y = []" by (simp_all add: sep_def y_def)
    then show ?thesis by (simp add: sep_ok_def stops_def)
  next
    case (Cons c cs)
    show ?thesis
    proof (cases "is_sep c")
      case True
      then show ?thesis using Cons by (simp add: sep_ok_def sep_def)
    next
      case False
      then have "sep = []" "y = y0" using Cons by (simp_all add: sep_def y_def)
      then show ?thesis using st False Cons by (simp add: sep_ok_def)
    qed
  qed
  have dm: "d = m0 @ y" using d r0 y0 m0 by simp
  have "d = m0 @ y \<and> m0 = ws @ tok @ sep \<and> tok = sg @ ds @ dot @ fs \<and>
           list_all is_space ws \<and> number_parts sg ds dot fs \<and> sep_ok dot sep y"
    by (intro conjI dm m0 tok wsa np so)
  then show ?thesis by (intro exI)
qed

lemma sep_ok_prefix: "sep_ok dot sep (x @ z) \<Longrightarrow> sep_ok dot sep x"
  by (cases x) (auto simp: sep_ok_def stops_def)

lemma num_group_prefix:
  assumes "num_group (m0 @ x @ z) = Some (m0, tok)"
  shows "num_group (m0 @ x) = Some (m0, tok)"
proof -
  from num_group_SomeD [OF assms] obtain ws sg ds dot fs sep y where
    d: "m0 @ x @ z = m0 @ y" and m0: "m0 = ws @ tok @ sep" and tok: "tok = sg @ ds @ dot @ fs"
    and ws: "list_all is_space ws" and np: "number_parts sg ds dot fs" and so: "sep_ok dot sep y"
    by blast
  from d have "y = x @ z" by simp
  with so have "sep_ok dot sep x" using sep_ok_prefix by blast
  from num_group_SomeI [OF ws np this] show ?thesis using m0 tok by simp
qed

lemma num_group_match_prefix:
  assumes "num_group d = Some (m0, tok)"
  shows "\<exists>y. d = m0 @ y" "m0 \<noteq> []"
proof -
  from num_group_SomeD [OF assms] show "\<exists>y. d = m0 @ y" by blast
  from num_group_SomeD [OF assms] show "m0 \<noteq> []" by (auto simp: number_parts_def)
qed

subsection \<open>Conversion of a matched number\<close>

text \<open>
  A number matched by the scanners is a plain decimal for \<open>strconv.ParseFloat\<close>: the
  only error it can give is the range error, decided by the digits before the dot.
\<close>

lemma ParseFloat_token:
  assumes np: "number_parts sg ds dot fs"
  shows "ParseFloat lib (sg @ ds @ dot @ fs) =
           (if float64_overflow \<le> digits_value ds then Inl ErrRange
            else Inr (nearest64 lib (sg = ''-'')
                   (of_int (digits_value (ds @ fs)) / 10 ^ length fs)))"
proof -
  from np have ds: "ds \<noteq> []" "list_all is_digit ds" "is_digit (hd ds)"
    and fsd: "list_all is_digit fs"
    by (auto simp: number_parts_def list_all_iff)
  then have hd: "hd ds \<noteq> CHR ''-''" "hd ds \<noteq> CHR ''+''" by (auto simp: is_digit_def)
  have st: "dot @ fs = [] \<or> \<not> is_digit (hd (dot @ fs))"
    using np by (auto simp: number_parts_def)
  have tk: "takeWhile is_digit (ds @ dot @ fs) = ds" "dropWhile is_digit (ds @ dot @ fs) = dot @ fs"
    using span_exact [OF ds(2) st] by auto
  have fp: "(if take 1 (dot @ fs) = ''.'' then drop 1 (dot @ fs) else dot @ fs) = fs"
    using np by (auto simp: number_parts_def)
  have body: "ParseFloat lib (ds @ dot @ fs) =
           (if float64_overflow \<le> digits_value ds then Inl ErrRange
            else Inr (nearest64 lib False
                   (of_int (digits_value (ds @ fs)) / 10 ^ length fs)))"
  proof -
    have a: "take 1 (ds @ dot @ fs) \<noteq> ''-''" "take 1 (ds @ dot @ fs) \<noteq> ''+''"
      using ds hd by (cases ds; simp)+
    have "ParseFloat lib (ds @ dot @ fs) =
       (let ip = takeWhile is_digit (ds @ dot @ fs);
            r = dropWhile is_digit (ds @ dot @ fs);
            fp = (if take 1 r = ''.'' then drop 1 r else r)
        in if ip @ fp \<noteq> [] \<and> list_all is_digit fp
           then if float64_overflow \<le> digits_value ip then Inl ErrRange
                else Inr (nearest64 lib False (of_int (digits_value (ip @ fp)) / 10 ^ length fp))
           else other_literal lib (ds @ dot @ fs))"
      unfolding ParseFloat_def using a by (simp only: Let_def if_False simp_thms)
    then show ?thesis unfolding tk Let_def fp using ds(1) fsd by simp
  qed
  have minus: "ParseFloat lib (CHR ''-'' # ds @ dot @ fs) =
           (if float64_overflow \<le> digits_value ds then Inl ErrRange
            else Inr (nearest64 lib True
                   (of_int (digits_value (ds @ fs)) / 10 ^ length fs)))"
  proof -
    have "ParseFloat lib (CHR ''-'' # ds @ dot @ fs) =
       (let ip = takeWhile is_digit (ds @ dot @ fs);
            r = dropWhile is_digit (ds @ dot @ fs);
            fp = (if take 1 r = ''.'' then drop 1 r else r)
        in if ip @ fp \<noteq> [] \<and> list_all is_digit fp
           then if float64_overflow \<le> digits_value ip then Inl ErrRange
                else Inr (nearest64 lib True (of_int (digits_value (ip @ fp)) / 10 ^ length fp))
           else other_literal lib (CHR ''-'' # ds @ dot @ fs))"
      unfolding ParseFloat_def by (simp add: Let_def)
    then show ?thesis unfolding tk Let_def fp using ds(1) fsd by simp
  qed
  from np have "sg = [] \<or> sg = ''-''" by (simp add: number_parts_def)
  then show ?thesis using body minus by auto
qed

subsection \<open>The run matched by \<open>cmdRE\<close>, scanned again by \<open>parseParams\<close>\<close>

text \<open>
  \<open>parseParams\<close> sees only the matched run, not the text after it. Each round of the
  run is matched again as the same round, since cutting the text after a match leaves its
  stoppers or the end of the text.
\<close>

lemma num_groups_prefix:
  "num_groups d = Some (run, l) \<Longrightarrow> \<exists>z. d = run @ z"
proof (induction d arbitrary: run l rule: num_groups.induct)
  case (1 d)
  from "1.prems" obtain m0 tok where ng: "num_group d = Some (m0, tok)"
    by (subst (asm) num_groups.simps) (auto split: option.splits)
  from num_group_match_prefix(1) [OF ng] obtain y where d: "d = m0 @ y" by blast
  show ?case
  proof (cases "num_groups y")
    case None
    with "1.prems" ng d have "run = m0"
      by (subst (asm) num_groups.simps) simp
    with d show ?thesis by blast
  next
    case (Some p)
    obtain ms l' where p: "p = (ms, l')" by (cases p)
    from "1.IH" [OF ng refl, of ms l'] Some p d obtain z where "y = ms @ z" by auto
    moreover from "1.prems" ng d Some p have "run = m0 @ ms"
      by (subst (asm) num_groups.simps) simp
    ultimately show ?thesis using d by simp
  qed
qed

lemma num_group_Nil [simp]: "num_group [] = None"
  by (simp add: num_group_def num_prefix_def)

lemma parseParams_loop_Nil [simp]: "parseParams_loop lib [] acc = Inr acc"
  by (simp add: parseParams_loop.simps)

lemma parseParams_step:
  assumes "num_group d = Some (m0, tok)"
  shows "parseParams_loop lib d acc =
           (case atof lib tok of
              Inl e \<Rightarrow> Inl e
            | Inr v \<Rightarrow> parseParams_loop lib (drop (length m0) d) (acc @ [v]))"
proof -
  from assms have "d \<noteq> []" by auto
  then show ?thesis
    by (subst parseParams_loop.simps) (simp add: numRE_def assms split: sum.splits)
qed

lemma atof_token:
  assumes "num_group d = Some (m0, tok)"
  shows "(\<exists>v. atof lib tok = Inr v) \<or>
         atof lib tok = Inl (UnableToParseFloat tok) \<and> ParseFloat lib tok = Inl ErrRange"
proof -
  from num_group_SomeD [OF assms] obtain sg ds dot fs where
    "tok = sg @ ds @ dot @ fs" "number_parts sg ds dot fs" by blast
  then show ?thesis
    using ParseFloat_token [of sg ds dot fs lib] by (auto simp: atof_def)
qed

lemma parseParams_run:
  "num_groups d = Some (run, l) \<Longrightarrow>
     (\<exists>vs. parseParams_loop lib run acc = Inr (acc @ vs)) \<or>
     (\<exists>tok. parseParams_loop lib run acc = Inl (UnableToParseFloat tok) \<and>
            ParseFloat lib tok = Inl ErrRange)"
proof (induction d arbitrary: run l acc rule: num_groups.induct)
  case (1 d)
  from "1.prems" obtain m0 tok where ng: "num_group d = Some (m0, tok)"
    by (subst (asm) num_groups.simps) (auto split: option.splits)
  from num_group_match_prefix(1) [OF ng] obtain y where d: "d = m0 @ y" by blast
  have "\<exists>ms. run = m0 @ ms \<and> (\<exists>z. y = ms @ z) \<and>
          (ms = [] \<or> (\<exists>l'. num_groups y = Some (ms, l')))"
  proof (cases "num_groups y")
    case None
    with "1.prems" ng d have "run = m0"
      by (subst (asm) num_groups.simps) simp
    then show ?thesis by simp
  next
    case (Some p)
    obtain ms l' where p: "p = (ms, l')" by (cases p)
    from num_groups_prefix Some p obtain z where "y = ms @ z" by blast
    moreover from "1.prems" ng d Some p have "run = m0 @ ms"
      by (subst (asm) num_groups.simps) simp
    ultimately show ?thesis using Some p by auto
  qed
  then obtain ms z where run: "run = m0 @ ms" and y: "y = ms @ z"
    and ms: "ms = [] \<or> (\<exists>l'. num_groups y = Some (ms, l'))" by blast
  from ng d y have "num_group (m0 @ ms @ z) = Some (m0, tok)" by simp
  then have ng': "num_group (m0 @ ms) = Some (m0, tok)" by (rule num_group_prefix)
  have step: "parseParams_loop lib run acc =
           (case atof lib tok of
              Inl e \<Rightarrow> Inl e
            | Inr v \<Rightarrow> parseParams_loop lib ms (acc @ [v]))"
    using parseParams_step [OF ng', of lib acc] run by (simp split: sum.splits)
  from atof_token [OF ng, of lib] show ?case
  proof
    assume "\<exists>v. atof lib tok = Inr v"
    then obtain v where v: "atof lib tok = Inr v" ..
    from ms show ?thesis
    proof
      assume "ms = []"
      then show ?thesis using step v by simp
    next
      assume "\<exists>l'. num_groups y = Some (ms, l')"
      then obtain l' where "num_groups y = Some (ms, l')" ..
      with "1.IH" [OF ng refl, of ms l' "acc @ [v]"] d
      show ?thesis using step v by auto
    qed
  next
    assume "atof lib tok = Inl (UnableToParseFloat tok) \<and> ParseFloat lib tok = Inl ErrRange"
    then show ?thesis using step by auto
  qed
qed

subsection \<open>Runs given by their rounds\<close>

lemma signed_decimal_parts:
  assumes "signed_decimal t"
  shows "\<exists>sg ds dot fs. t = sg @ ds @ dot @ fs \<and> number_parts sg ds dot fs"
proof -
  define sg where "sg = (if take 1 t = ''-'' then ''-'' else [])"
  define b where "b = (if take 1 t = ''-'' then drop 1 t else t)"
  define ds where "ds = takeWhile is_digit b"
  define r where "r = dropWhile is_digit b"
  define dot where "dot = take 1 r"
  define fs where "fs = drop 1 r"
  have t: "t = sg @ b" unfolding sg_def b_def by (cases t) auto
  have b: "b = ds @ r" by (simp add: ds_def r_def)
  have r: "r = dot @ fs" by (simp add: dot_def fs_def)
  from assms have a: "ds \<noteq> []" "r = [] \<or> take 1 r = ''.'' \<and> list_all is_digit (drop 1 r)"
    unfolding signed_decimal_def Let_def b_def [symmetric] ds_def [symmetric] r_def [symmetric]
    by blast+
  have dsd: "list_all is_digit ds" by (auto simp: ds_def list_all_iff dest: set_takeWhileD)
  have "number_parts sg ds dot fs"
    unfolding number_parts_def using a dsd by (auto simp: sg_def dot_def fs_def)
  moreover have "t = sg @ ds @ dot @ fs" using t b r by simp
  ultimately show ?thesis by (intro exI conjI)
qed

lemma run_text_Nil [simp]: "run_text [] = []"
  by (simp add: run_text_def)

lemma run_text_Cons [simp]: "run_text ((ws, tok, sep) # es) = ws @ tok @ sep @ run_text es"
  by (simp add: run_text_def)

lemma run_elem_group:
  assumes "run_ok ((ws, tok, sep) # es)"
  shows "num_group (ws @ tok @ sep @ run_text es) = Some (ws @ tok @ sep, tok)"
proof -
  from assms have ws: "list_all is_space ws" and sd: "signed_decimal tok" by simp_all
  from signed_decimal_parts [OF sd] obtain sg ds dot fs where
    tok: "tok = sg @ ds @ dot @ fs" and np: "number_parts sg ds dot fs" by blast
  have "sep_ok dot sep (run_text es)"
  proof (cases "sep = []")
    case False
    with assms obtain c where "sep = [c]" "is_sep c"
      by (cases sep) auto
    then show ?thesis by (simp add: sep_ok_def)
  next
    case True
    show ?thesis
    proof (cases es)
      case Nil
      then show ?thesis using True by (simp add: sep_ok_def stops_def)
    next
      case (Cons e es')
      obtain ws' tok' sep' where e: "e = (ws', tok', sep')" by (cases e)
      from assms True Cons e have "ws' = []" "take 1 tok' = ''-''" by simp_all
      then obtain rest where "run_text es = CHR ''-'' # rest"
        using Cons e by (cases tok') auto
      then show ?thesis using True by (simp add: sep_ok_def stops_def is_sep_def)
    qed
  qed
  from num_group_SomeI [OF ws np this] show ?thesis using tok by simp
qed

lemma run_groups:
  "run_ok es \<Longrightarrow> es \<noteq> [] \<Longrightarrow> \<exists>l. num_groups (run_text es) = Some (run_text es, l)"
proof (induction es)
  case Nil
  then show ?case by simp
next
  case (Cons e es)
  obtain ws tok sep where e: "e = (ws, tok, sep)" by (cases e)
  from Cons.prems e have ok: "run_ok ((ws, tok, sep) # es)" and ok': "run_ok es" by simp_all
  note ng = run_elem_group [OF ok]
  have dr: "drop (length (ws @ tok @ sep)) (ws @ tok @ sep @ run_text es) = run_text es"
    by simp
  show ?case
  proof (cases "es = []")
    case True
    have "num_groups (ws @ tok @ sep @ run_text es) = Some (ws @ tok @ sep, tok)"
      by (subst num_groups.simps, simp only: ng option.case prod.case dr)
         (simp add: True num_groups.simps)
    then show ?thesis using e True by simp
  next
    case False
    from Cons.IH [OF ok' False] obtain l where l: "num_groups (run_text es) = Some (run_text es, l)" ..
    have "num_groups (ws @ tok @ sep @ run_text es) = Some ((ws @ tok @ sep) @ run_text es, l)"
      by (subst num_groups.simps, simp only: ng option.case prod.case dr l)
    then show ?thesis using e by simp
  qed
qed

lemma run_params:
  "run_ok es \<Longrightarrow> list_all2 (\<lambda>(ws, tok, sep) v. ParseFloat lib tok = Inr v) es vs \<Longrightarrow>
     parseParams_loop lib (run_text es) acc = Inr (acc @ vs)"
proof (induction es arbitrary: vs acc)
  case Nil
  then show ?case by simp
next
  case (Cons e es)
  obtain ws tok sep where e: "e = (ws, tok, sep)" by (cases e)
  from Cons.prems(2) e obtain v vs' where vs: "vs = v # vs'" and v: "ParseFloat lib tok = Inr v"
    and rest: "list_all2 (\<lambda>(ws, tok, sep) v. ParseFloat lib tok = Inr v) es vs'"
    by (cases vs) auto
  from Cons.prems e have ok: "run_ok ((ws, tok, sep) # es)" and ok': "run_ok es" by simp_all
  note ng = run_elem_group [OF ok]
  have "parseParams_loop lib (ws @ tok @ sep @ run_text es) acc =
          parseParams_loop lib (run_text es) (acc @ [v])"
    using parseParams_step [OF ng, of lib acc] v by (simp add: atof_def)
  also have "\<dots> = Inr ((acc @ [v]) @ vs')" by (rule Cons.IH [OF ok' rest])
  finally show ?case using e vs by simp
qed

subsection \<open>Steps of the scanning loop\<close>

lemma ParsePath_loop_Nil [simp]: "ParsePath_loop lib [] steps numZs = (None, steps, numZs)"
  by (simp add: ParsePath_loop.simps)

lemma cmdRE_letter_run:
  assumes "c \<in> set ''mlhvcsqtaMLHVCSQTA''" and "num_groups r = Some (run, l)"
  shows "cmdRE (c # r) = [c # run, [c], l]"
  using assms by (simp add: cmdRE_def cmd_letter_def)

lemma closeRE_letter:
  assumes "c \<in> set ''mlhvcsqtaMLHVCSQTA''"
  shows "closeRE (c # r) = []"
  using assms by (auto simp: closeRE_def)

lemma close_text_Nil [simp]: "close_text [] = []"
  by (simp add: close_text_def)

lemma close_text_Cons [simp]: "close_text ((z, ws) # bs) = z # ws @ close_text bs"
  by (simp add: close_text_def)

lemma closeRE_block:
  assumes "z = CHR ''z'' \<or> z = CHR ''Z''" and "list_all is_space ws"
    and "list_all (\<lambda>(z, ws). (z = CHR ''z'' \<or> z = CHR ''Z'') \<and> list_all is_space ws) bs"
  shows "closeRE (z # ws @ close_text bs) = [z # ws, [z]]"
proof -
  have "close_text bs = [] \<or> \<not> is_space (hd (close_text bs))"
    using assms(3) by (cases bs) (auto simp: is_space_def)
  from span_exact [OF assms(2) this] show ?thesis
    using assms(1) by (auto simp: closeRE_def)
qed

lemma close_loop:
  "list_all (\<lambda>(z, ws). (z = CHR ''z'' \<or> z = CHR ''Z'') \<and> list_all is_space ws) bs \<Longrightarrow>
   ParsePath_loop lib (close_text bs) steps numZs
     = (None, steps @ map (\<lambda>(z, ws). \<lparr>Command = [z], Parameters = []\<rparr>) bs, numZs + length bs)"
proof (induction bs arbitrary: steps numZs)
  case Nil
  then show ?case by simp
next
  case (Cons b bs)
  obtain z ws where b: "b = (z, ws)" by (cases b)
  from Cons.prems b have z: "z = CHR ''z'' \<or> z = CHR ''Z''" and ws: "list_all is_space ws"
    and rest: "list_all (\<lambda>(z, ws). (z = CHR ''z'' \<or> z = CHR ''Z'') \<and> list_all is_space ws) bs"
    by simp_all
  have cl: "closeRE (z # ws @ close_text bs) = [z # ws, [z]]"
    by (rule closeRE_block [OF z ws rest])
  have "ParsePath_loop lib (z # ws @ close_text bs) steps numZs =
        ParsePath_loop lib (close_text bs) (steps @ [\<lparr>Command = [z], Parameters = []\<rparr>]) (numZs + 1)"
    by (subst ParsePath_loop.simps) (simp add: cl)
  then show ?case using Cons.IH [OF rest] b by simp
qed

subsection \<open>Progress and bounds\<close>

text \<open>A match is never empty, so the text left after it is shorter.\<close>

lemma closeRE_match:
  assumes "length (closeRE d) = 2"
  shows "closeRE d ! 0 \<noteq> []" and "d \<noteq> []"
  using assms by (auto simp: closeRE_def split: list.splits if_splits)

lemma cmdRE_match:
  assumes "3 \<le> length (cmdRE d)"
  shows "cmdRE d ! 0 \<noteq> []" and "d \<noteq> []"
  using assms by (auto simp: cmdRE_def cmd_letter_def Let_def split: option.splits if_splits)

lemma numRE_match:
  assumes "length (numRE d) = 2"
  shows "numRE d ! 0 \<noteq> []" and "d \<noteq> []"
proof -
  from assms obtain m0 tok where "num_group d = Some (m0, tok)" "numRE d = [m0, tok]"
    by (auto simp: numRE_def split: option.splits)
  with num_group_match_prefix [of d m0 tok] show "numRE d ! 0 \<noteq> []" and "d \<noteq> []" by auto
qed

lemma drop_shorter: "m \<noteq> [] \<Longrightarrow> d \<noteq> [] \<Longrightarrow> length (drop (length m) d) < length d"
  by (cases m; cases d) auto

lemma ParsePath_loop_steps_bound:
  "ParsePath_loop lib d steps numZs = (e, steps', numZs') \<Longrightarrow>
     length steps' \<le> length steps + length d"
proof (induction lib d steps numZs rule: ParsePath_loop.induct)
  case (1 lib d steps numZs)
  show ?case
  proof (cases "d = []")
    case True
    with "1.prems" show ?thesis by simp
  next
    case False
    then have pos: "0 < length d" by simp
    show ?thesis
    proof (cases "length (closeRE d) = 2")
      case True
      from "1.prems" pos True have
        "ParsePath_loop lib (drop (length (closeRE d ! 0)) d)
           (steps @ [\<lparr>Command = closeRE d ! 1, Parameters = []\<rparr>]) (numZs + 1) = (e, steps', numZs')"
        by (subst (asm) ParsePath_loop.simps) simp
      from "1.IH"(1) [OF pos True this] drop_shorter [OF closeRE_match [OF True]]
      show ?thesis by simp
    next
      case nc: False
      show ?thesis
      proof (cases "3 \<le> length (cmdRE d)")
        case True
        show ?thesis
        proof (cases "parseParams lib (tl (cmdRE d ! 0))")
          case (Inl err)
          with "1.prems" pos nc True show ?thesis
            by (subst (asm) ParsePath_loop.simps) simp
        next
          case (Inr ps)
          with "1.prems" pos nc True have
            "ParsePath_loop lib (drop (length (cmdRE d ! 0)) d)
               (steps @ [\<lparr>Command = cmdRE d ! 1, Parameters = ps\<rparr>]) numZs = (e, steps', numZs')"
            by (subst (asm) ParsePath_loop.simps) simp
          from "1.IH"(2) [OF pos nc True Inr this] drop_shorter [OF cmdRE_match [OF True]]
          show ?thesis by simp
        qed
      next
        case False
        with "1.prems" pos nc show ?thesis
          by (subst (asm) ParsePath_loop.simps) simp
      qed
    qed
  qed
qed

lemma parseParams_loop_bound:
  "parseParams_loop lib d acc = Inr vs \<Longrightarrow> length vs \<le> length acc + length d"
proof (induction lib d acc rule: parseParams_loop.induct)
  case (1 lib d result)
  show ?case
  proof (cases "d = []")
    case True
    with "1.prems" show ?thesis by simp
  next
    case False
    then have pos: "0 < length d" by simp
    from "1.prems" pos have m: "length (numRE d) = 2"
      by (subst (asm) parseParams_loop.simps) (simp split: if_splits)
    from "1.prems" pos m obtain v where v: "atof lib (numRE d ! 1) = Inr v"
      and rec: "parseParams_loop lib (drop (length (numRE d ! 0)) d) (result @ [v]) = Inr vs"
      by (subst (asm) parseParams_loop.simps) (auto split: sum.splits)
    from "1.IH" [OF pos m v rec] drop_shorter [OF numRE_match [OF m]]
    show ?thesis by simp
  qed
qed

text \<open>
  The loop only appends: started with steps and a count, it gives what it gives from
  the empty list and zero, put after them.
\<close>

lemma ParsePath_loop_appends:
  "ParsePath_loop lib d steps numZs =
     (case ParsePath_loop lib d [] 0 of (e, new, k) \<Rightarrow> (e, steps @ new, numZs + k))"
proof -
  have "\<forall>s n. ParsePath_loop lib d s n =
          (case ParsePath_loop lib d [] 0 of (e, new, k) \<Rightarrow> (e, s @ new, n + k))"
  proof (induction lib d steps numZs rule: ParsePath_loop.induct)
    case (1 lib d steps numZs)
    show ?case
    proof (cases "d = []")
      case True
      then show ?thesis by simp
    next
      case ne: False
      then have pos: "0 < length d" by simp
      show ?thesis
      proof (cases "length (closeRE d) = 2")
        case True
        note ih = "1.IH"(1) [OF pos True, rule_format]
        show ?thesis
        proof (intro allI)
          fix s n
          let ?st = "\<lparr>Command = closeRE d ! 1, Parameters = ([] :: 'a list)\<rparr>"
          let ?d' = "drop (length (closeRE d ! 0)) d"
          have a: "ParsePath_loop lib d s n = ParsePath_loop lib ?d' (s @ [?st]) (n + 1)"
            by (subst ParsePath_loop.simps) (simp add: ne True)
          have b: "ParsePath_loop lib d [] 0 = ParsePath_loop lib ?d' [?st] 1"
            by (subst ParsePath_loop.simps) (simp add: ne True)
          show "ParsePath_loop lib d s n =
                  (case ParsePath_loop lib d [] 0 of (e, new, k) \<Rightarrow> (e, s @ new, n + k))"
            unfolding a b by (subst ih, subst (2) ih) (simp split: prod.splits)
        qed
      next
        case nc: False
        show ?thesis
        proof (cases "3 \<le> length (cmdRE d)")
          case True
          show ?thesis
          proof (cases "parseParams lib (tl (cmdRE d ! 0))")
            case (Inl err)
            show ?thesis
            proof (intro allI)
              fix s n
              have "ParsePath_loop lib d s' n' = (Some err, s', n')" for s' n'
                by (subst ParsePath_loop.simps) (simp add: ne nc True Inl)
              then show "ParsePath_loop lib d s n =
                  (case ParsePath_loop lib d [] 0 of (e, new, k) \<Rightarrow> (e, s @ new, n + k))"
                by simp
            qed
          next
            case (Inr ps)
            note ih = "1.IH"(2) [OF pos nc True Inr, rule_format]
            show ?thesis
            proof (intro allI)
              fix s n
              let ?st = "\<lparr>Command = cmdRE d ! 1, Parameters = ps\<rparr>"
              let ?d' = "drop (length (cmdRE d ! 0)) d"
              have a: "ParsePath_loop lib d s' n' = ParsePath_loop lib ?d' (s' @ [?st]) n'" for s' n'
                by (subst ParsePath_loop.simps) (simp add: ne nc True Inr)
              show "ParsePath_loop lib d s n =
                  (case ParsePath_loop lib d [] 0 of (e, new, k) \<Rightarrow> (e, s @ new, n + k))"
                unfolding a by (subst ih, subst (2) ih) (simp split: prod.splits)
            qed
          qed
        next
          case False
          show ?thesis
          proof (intro allI)
            fix s n
            have "ParsePath_loop lib d s' n' = (Some (UnknownPathCommand d), s', n')" for s' n'
              by (subst ParsePath_loop.simps) (simp add: ne nc False)
            then show "ParsePath_loop lib d s n =
                (case ParsePath_loop lib d [] 0 of (e, new, k) \<Rightarrow> (e, s @ new, n + k))"
              by simp
          qed
        qed
      qed
    qed
  qed
  then show ?thesis by blast
qed

subsection \<open>Texts that no pattern matches\<close>

text \<open>
  A round fails exactly when, after its white space, the text does not start a number;
  so \<open>cmdRE\<close> fails when there is no command letter or no number after it.
\<close>

lemma num_prefix_None: "num_prefix r = None \<longleftrightarrow> \<not> starts_number r"
proof (cases r)
  case Nil
  then show ?thesis by (simp add: num_prefix_def starts_number_def)
next
  case (Cons c r')
  show ?thesis
  proof (cases "c = CHR ''-''")
    case True
    then show ?thesis using Cons
      by (cases r') (auto simp: num_prefix_def starts_number_def Let_def)
  next
    case False
    then show ?thesis using Cons
      by (auto simp: num_prefix_def starts_number_def Let_def)
  qed
qed

lemma num_group_None: "num_group r = None \<longleftrightarrow> \<not> starts_number (dropWhile is_space r)"
  using num_prefix_None [of "dropWhile is_space r"]
  by (auto simp: num_group_def Let_def split: option.splits)

lemma num_groups_None: "num_groups r = None \<longleftrightarrow> \<not> starts_number (dropWhile is_space r)"
  using num_group_None [of r]
  by (subst num_groups.simps) (auto split: option.splits)

lemma cmdRE_Nil:
  "cmdRE d = [] \<longleftrightarrow>
     cmd_letter d = [] \<or> \<not> starts_number (dropWhile is_space (drop (length (cmd_letter d)) d))"
  using num_groups_None [of "drop (length (cmd_letter d)) d"]
  by (auto simp: cmdRE_def Let_def split: option.splits)

lemma closeRE_Nil: "closeRE d = [] \<longleftrightarrow> d = [] \<or> hd d \<noteq> CHR ''z'' \<and> hd d \<noteq> CHR ''Z''"
  by (cases d) (auto simp: closeRE_def)

section \<open>Unrecognised text\<close>

text \<open>
  Claim C2. Whenever the text still to be consumed is not empty and matches neither
  \<open>closeRE\<close> nor \<open>cmdRE\<close>, the scanning loop ends in the fatal error
  \<open>Unknown path command\<close> carrying exactly that text, and the steps and the close
  counter are those reached before it: no step is appended for the unmatched text, and
  nothing is skipped. A glyph whose path is such a text, with no override, ends in that
  error unchanged. The texts that match neither pattern are exactly: those that start
  with a character that is no command letter, and those that start with a command letter
  (other than \<open>z\<close>) after which, white space apart, no number starts. So every text with
  an unknown leading character (as \<open>X10,10\<close>) and every command letter without a number
  after it (as \<open>Q\<close>) ends in that error.
\<close>

theorem unknown_command_is_fatal:
  "(d \<noteq> [] \<and> closeRE d = [] \<and> cmdRE d = [] \<longrightarrow>
      ParsePath_loop lib d steps numZs = (Some (UnknownPathCommand d), steps, numZs) \<and>
      (D g = Some d \<and> (DOrig g = None \<or> DOrig g = Some []) \<longrightarrow>
         ParsePath lib (Some g) = (Exited (UnknownPathCommand d), [], Some g))) \<and>
   (closeRE d = [] \<and> cmdRE d = [] \<longleftrightarrow>
      d = [] \<or>
      hd d \<notin> set ''zZ'' \<and>
      (hd d \<notin> set ''mlhvcsqtaMLHVCSQTA'' \<and> take 2 d \<noteq> [CHR 0xC5, CHR 0xBF] \<or>
       hd d \<in> set ''mlhvcsqtaMLHVCSQTA'' \<and> \<not> starts_number (dropWhile is_space (tl d)) \<or>
       take 2 d = [CHR 0xC5, CHR 0xBF] \<and> \<not> starts_number (dropWhile is_space (drop 2 d)))) \<and>
   (c \<notin> set ''mlhvcsqtaMLHVCSQTAzZ'' \<and> take 2 (c # r) \<noteq> [CHR 0xC5, CHR 0xBF] \<longrightarrow>
      ParsePath_loop lib (c # r) steps numZs = (Some (UnknownPathCommand (c # r)), steps, numZs)) \<and>
   (c \<in> set ''mlhvcsqtaMLHVCSQTA'' \<and> \<not> starts_number (dropWhile is_space r) \<longrightarrow>
      ParsePath_loop lib (c # r) steps numZs = (Some (UnknownPathCommand (c # r)), steps, numZs))"
proof (intro conjI)
  show "d \<noteq> [] \<and> closeRE d = [] \<and> cmdRE d = [] \<longrightarrow>
      ParsePath_loop lib d steps numZs = (Some (UnknownPathCommand d), steps, numZs) \<and>
      (D g = Some d \<and> (DOrig g = None \<or> DOrig g = Some []) \<longrightarrow>
         ParsePath lib (Some g) = (Exited (UnknownPathCommand d), [], Some g))"
    by (auto simp: ParsePath_loop.simps ParsePath_def)
next
  show "closeRE d = [] \<and> cmdRE d = [] \<longleftrightarrow>
      d = [] \<or>
      hd d \<notin> set ''zZ'' \<and>
      (hd d \<notin> set ''mlhvcsqtaMLHVCSQTA'' \<and> take 2 d \<noteq> [CHR 0xC5, CHR 0xBF] \<or>
       hd d \<in> set ''mlhvcsqtaMLHVCSQTA'' \<and> \<not> starts_number (dropWhile is_space (tl d)) \<or>
       take 2 d = [CHR 0xC5, CHR 0xBF] \<and> \<not> starts_number (dropWhile is_space (drop 2 d)))"
  proof (cases d)
    case Nil
    then show ?thesis by (simp add: closeRE_def cmdRE_def cmd_letter_def)
  next
    case (Cons a as)
    have l: "cmd_letter d =
        (if a \<in> set ''mlhvcsqtaMLHVCSQTA'' then [a]
         else if take 2 d = [CHR 0xC5, CHR 0xBF] then take 2 d else [])"
      using Cons by (simp add: cmd_letter_def)
    have ls: "take 2 d = [CHR 0xC5, CHR 0xBF] \<Longrightarrow> a \<notin> set ''mlhvcsqtaMLHVCSQTA'' \<and> length (take 2 d) = 2"
      using Cons by auto
    show ?thesis
      unfolding closeRE_Nil cmdRE_Nil l using Cons ls
      by (cases "a \<in> set ''mlhvcsqtaMLHVCSQTA''"; cases "take 2 d = [CHR 0xC5, CHR 0xBF]")
         (auto simp: drop_Suc)
  qed
next
  show "c \<notin> set ''mlhvcsqtaMLHVCSQTAzZ'' \<and> take 2 (c # r) \<noteq> [CHR 0xC5, CHR 0xBF] \<longrightarrow>
      ParsePath_loop lib (c # r) steps numZs = (Some (UnknownPathCommand (c # r)), steps, numZs)"
  proof
    assume a: "c \<notin> set ''mlhvcsqtaMLHVCSQTAzZ'' \<and> take 2 (c # r) \<noteq> [CHR 0xC5, CHR 0xBF]"
    then have "closeRE (c # r) = []" by (auto simp: closeRE_def)
    moreover from a have "cmd_letter (c # r) = []" by (auto simp: cmd_letter_def)
    then have "cmdRE (c # r) = []" by (simp add: cmdRE_def)
    ultimately show "ParsePath_loop lib (c # r) steps numZs
        = (Some (UnknownPathCommand (c # r)), steps, numZs)"
      by (simp add: ParsePath_loop.simps)
  qed
next
  show "c \<in> set ''mlhvcsqtaMLHVCSQTA'' \<and> \<not> starts_number (dropWhile is_space r) \<longrightarrow>
      ParsePath_loop lib (c # r) steps numZs = (Some (UnknownPathCommand (c # r)), steps, numZs)"
  proof
    assume a: "c \<in> set ''mlhvcsqtaMLHVCSQTA'' \<and> \<not> starts_number (dropWhile is_space r)"
    then have "closeRE (c # r) = []" by (auto simp: closeRE_def)
    moreover from a have "cmd_letter (c # r) = [c]" by (auto simp: cmd_letter_def)
    with a have "cmdRE (c # r) = []" by (simp add: cmdRE_Nil)
    ultimately show "ParsePath_loop lib (c # r) steps numZs
        = (Some (UnknownPathCommand (c # r)), steps, numZs)"
      by (simp add: ParsePath_loop.simps)
  qed
qed

theorem unknown_command_is_fatal_witness:
  "ParsePath_loop exact_lib ''Q'' [] 0 = (Some (UnknownPathCommand ''Q''), [], 0) \<and>
   ParsePath_loop exact_lib ''X10,10'' [] 0 = (Some (UnknownPathCommand ''X10,10''), [], 0) \<and>
   ParsePath_loop exact_lib ''l -.5'' [] 0 = (Some (UnknownPathCommand ''l -.5''), [], 0) \<and>
   ParsePath exact_lib
     (Some \<lparr>HorizAdvX = 0, Unicode = None, D = Some ''X10,10'', DOrig = None,
            GerberLP = None, PathSteps = []\<rparr>)
   = (Exited (UnknownPathCommand ''X10,10''), [],
      Some \<lparr>HorizAdvX = 0, Unicode = None, D = Some ''X10,10'', DOrig = None,
            GerberLP = None, PathSteps = []\<rparr>)"
proof -
  let ?g = "\<lparr>HorizAdvX = 0, Unicode = None, D = Some ''X10,10'', DOrig = None,
             GerberLP = None, PathSteps = ([] :: rat PathStep list)\<rparr>"
  have 1: "CHR ''Q'' \<in> set ''mlhvcsqtaMLHVCSQTA'' \<and> \<not> starts_number (dropWhile is_space [])"
    by code_simp
  have 2: "CHR ''X'' \<notin> set ''mlhvcsqtaMLHVCSQTAzZ'' \<and> take 2 ''X10,10'' \<noteq> [CHR 0xC5, CHR 0xBF]"
    by code_simp
  have 3: "CHR ''l'' \<in> set ''mlhvcsqtaMLHVCSQTA'' \<and> \<not> starts_number (dropWhile is_space '' -.5'')"
    by code_simp
  have 4: "''X10,10'' \<noteq> [] \<and> closeRE ''X10,10'' = [] \<and> cmdRE ''X10,10'' = []" by code_simp
  have 5: "D ?g = Some ''X10,10'' \<and> (DOrig ?g = None \<or> DOrig ?g = Some [])" by simp
  from unknown_command_is_fatal [where c = "CHR ''Q''" and r = "[]" and lib = exact_lib
      and steps = "[]" and numZs = 0] 1
  have a: "ParsePath_loop exact_lib ''Q'' [] 0 = (Some (UnknownPathCommand ''Q''), [], 0)"
    by blast
  from unknown_command_is_fatal [where c = "CHR ''X''" and r = "''10,10''" and lib = exact_lib
      and steps = "[]" and numZs = 0] 2
  have b: "ParsePath_loop exact_lib ''X10,10'' [] 0 = (Some (UnknownPathCommand ''X10,10''), [], 0)"
    by blast
  from unknown_command_is_fatal [where c = "CHR ''l''" and r = "'' -.5''" and lib = exact_lib
      and steps = "[]" and numZs = 0] 3
  have c: "ParsePath_loop exact_lib ''l -.5'' [] 0 = (Some (UnknownPathCommand ''l -.5''), [], 0)"
    by blast
  from unknown_command_is_fatal [where d = "''X10,10''" and lib = exact_lib and g = ?g] 4 5
  have d: "ParsePath exact_lib (Some ?g) = (Exited (UnknownPathCommand ''X10,10''), [], Some ?g)"
    by blast
  from a b c d show ?thesis by simp
qed

section \<open>Diagnostics of a glyph without a unicode attribute\<close>

text \<open>
  Claim C8. Both \<open>log.Printf\<close> calls format \<open>*g.Unicode\<close> without a \<open>nil\<close> check, while
  \<open>g.D\<close>, \<open>g.DOrig\<close> and \<open>g.GerberLP\<close> are all checked. For a glyph without a unicode
  attribute the override notice panics before anything is parsed, and the mismatch warning
  panics after the steps were appended: neither diagnostic is written.
\<close>

theorem diagnostics_panic_without_unicode:
  "ParsePath exact_lib
     (Some \<lparr>HorizAdvX = 0, Unicode = None, D = Some ''M0,0'', DOrig = Some ''z'',
            GerberLP = None, PathSteps = []\<rparr>)
   = (Panicked, [],
      Some \<lparr>HorizAdvX = 0, Unicode = None, D = Some ''M0,0'', DOrig = Some ''z'',
            GerberLP = None, PathSteps = []\<rparr>) \<and>
   ParsePath exact_lib
     (Some \<lparr>HorizAdvX = 0, Unicode = None, D = Some ''zz'', DOrig = None,
            GerberLP = Some ''a'', PathSteps = []\<rparr>)
   = (Panicked, [],
      Some \<lparr>HorizAdvX = 0, Unicode = None, D = Some ''zz'', DOrig = None,
            GerberLP = Some ''a'',
            PathSteps = [\<lparr>Command = ''z'', Parameters = []\<rparr>,
                         \<lparr>Command = ''z'', Parameters = []\<rparr>]\<rparr>)"
  by code_simp

section \<open>The close-count warning\<close>

text \<open>
  Claim C4. The path \<open>zZ\<close> of a glyph with neither a polarity marker nor a unicode
  attribute is consumed without error and counts two close commands, so the warning is
  due; writing it dereferences \<open>g.Unicode\<close>, and the call panics instead of returning.
\<close>

theorem mismatch_warning_panics_without_unicode:
  "ParsePath_loop exact_lib ''zZ'' [] 0
   = (None, [\<lparr>Command = ''z'', Parameters = []\<rparr>, \<lparr>Command = ''Z'', Parameters = []\<rparr>], 2) \<and>
   ParsePath exact_lib
     (Some \<lparr>HorizAdvX = 0, Unicode = None, D = Some ''zZ'', DOrig = None,
            GerberLP = None, PathSteps = []\<rparr>)
   = (Panicked, [],
      Some \<lparr>HorizAdvX = 0, Unicode = None, D = Some ''zZ'', DOrig = None,
            GerberLP = None,
            PathSteps = [\<lparr>Command = ''z'', Parameters = []\<rparr>,
                         \<lparr>Command = ''Z'', Parameters = []\<rparr>]\<rparr>)"
  by code_simp

text \<open>
  With a unicode attribute the warning is as specified: once the path is consumed, it is
  written once exactly when more than one close command was counted and the polarity
  marker is absent or of another length, and the call returns with the steps of the scan.
\<close>

lemma mismatch_warning_with_unicode:
  assumes "D g = Some d" and "DOrig g = None \<or> DOrig g = Some []" and "Unicode g = Some u"
    and "ParsePath_loop lib d (PathSteps g) 0 = (None, steps, numZs)"
  shows "ParsePath lib (Some g) =
           (Returned,
            (if 1 < numZs \<and> (case GerberLP g of None \<Rightarrow> True | Some lp \<Rightarrow> length lp \<noteq> numZs)
             then [case GerberLP g of None \<Rightarrow> MismatchNil u numZs | Some lp \<Rightarrow> Mismatch u numZs lp]
             else []),
            Some (g\<lparr>PathSteps := steps\<rparr>))"
  using assms by (cases "GerberLP g") (auto simp: ParsePath_def Let_def)

section \<open>One command and its numbers\<close>

text \<open>
  Claim C1, as amended. For a text made of one letter of \<open>mlhvcsqta\<close>, in either
  case, and a numeric run of signed decimals each of which \<open>strconv.ParseFloat\<close>
  converts without a range error, the loop appends exactly one step: its command is the
  letter as written and its parameters are the converted numbers in the order of the text.
  A glyph with that path and no override gets this one step, returns, and logs nothing.
\<close>

theorem command_with_numeric_run:
  assumes "c \<in> set ''mlhvcsqtaMLHVCSQTA''" and "es \<noteq> []" and "run_ok es"
    and "list_all2 (\<lambda>(ws, tok, sep) v. ParseFloat lib tok = Inr v) es vs"
  shows "ParsePath_loop lib (c # run_text es) steps numZs
           = (None, steps @ [\<lparr>Command = [c], Parameters = vs\<rparr>], numZs) \<and>
         (D g = Some (c # run_text es) \<and> (DOrig g = None \<or> DOrig g = Some []) \<longrightarrow>
            ParsePath lib (Some g)
              = (Returned, [],
                 Some (g\<lparr>PathSteps := PathSteps g @ [\<lparr>Command = [c], Parameters = vs\<rparr>]\<rparr>)))"
proof -
  from run_groups [OF assms(3,2)] obtain l where
    "num_groups (run_text es) = Some (run_text es, l)" ..
  from cmdRE_letter_run [OF assms(1) this]
  have cm: "cmdRE (c # run_text es) = [c # run_text es, [c], l]" .
  have cl: "closeRE (c # run_text es) = []" by (rule closeRE_letter [OF assms(1)])
  have pp: "parseParams lib (run_text es) = Inr vs"
    using run_params [OF assms(3,4), of "[]"] by (simp add: parseParams_def)
  have loop: "ParsePath_loop lib (c # run_text es) st n
           = (None, st @ [\<lparr>Command = [c], Parameters = vs\<rparr>], n)" for st n
    by (subst ParsePath_loop.simps) (simp add: cm cl pp)
  show ?thesis
    by (auto simp: loop ParsePath_def Let_def split: option.splits)
qed

theorem command_with_numeric_run_witness:
  "ParsePath_loop exact_lib ''M1,-2.5 3-4.'' [] 0
     = (None, [\<lparr>Command = ''M'', Parameters = [1, - (5 / 2), 3, - 4]\<rparr>], 0) \<and>
   ParsePath exact_lib
     (Some \<lparr>HorizAdvX = 0, Unicode = None, D = Some ''M1,-2.5 3-4.'', DOrig = None,
            GerberLP = None, PathSteps = []\<rparr>)
     = (Returned, [],
        Some \<lparr>HorizAdvX = 0, Unicode = None, D = Some ''M1,-2.5 3-4.'', DOrig = None,
              GerberLP = None,
              PathSteps = [\<lparr>Command = ''M'', Parameters = [1, - (5 / 2), 3, - 4]\<rparr>]\<rparr>)"
proof -
  let ?es = "[([], ''1'', '',''), ([], ''-2.5'', '' ''), ([], ''3'', []), ([], ''-4.'', [])]"
  let ?g = "\<lparr>HorizAdvX = 0, Unicode = None, D = Some ''M1,-2.5 3-4.'', DOrig = None,
            GerberLP = None, PathSteps = ([] :: rat PathStep list)\<rparr>"
  have 1: "CHR ''M'' \<in> set ''mlhvcsqtaMLHVCSQTA''" by simp
  have 2: "?es \<noteq> []" by simp
  have 3: "run_ok ?es" by code_simp
  have 4: "list_all2 (\<lambda>(ws, tok, sep) v. ParseFloat exact_lib tok = Inr v) ?es [1, - (5 / 2), 3, - 4]"
    by code_simp
  have 5: "run_text ?es = ''1,-2.5 3-4.''" by code_simp
  show ?thesis
    using command_with_numeric_run [OF 1 2 3 4, of "[]" 0 ?g] unfolding 5 by simp
qed

text \<open>
  The claim as stated, for every valid signed decimal, fails on a number of 310 digits:
  the conversion reports a range error and \<open>atof\<close> ends the process, with no step.
\<close>

theorem huge_number_counterexample:
  "signed_decimal (replicate 310 (CHR ''9'')) \<and>
   ParsePath_loop exact_lib (CHR ''L'' # replicate 310 (CHR ''9'')) [] 0
     = (Some (UnableToParseFloat (replicate 310 (CHR ''9''))), [], 0)"
  by code_simp

section \<open>The numeric run handed to \<open>parseParams\<close>\<close>

text \<open>
  Claim C6, as amended. When \<open>cmdRE\<close> matches with a one-byte command letter, the
  text \<open>m[0][1:]\<close> handed to \<open>parseParams\<close> is the matched numeric run, and the scanner
  either consumes all of it and returns the values, or stops in \<open>atof\<close> on a number that
  \<open>strconv.ParseFloat\<close> rejects with a range error. The branch
  \<open>parseParams: unable to parse\<close> is not reached, and no number is a syntax error.
\<close>

theorem numeric_run_scans:
  assumes "3 \<le> length (cmdRE d)" and "length (cmdRE d ! 1) = 1"
  shows "(\<exists>vs. parseParams lib (tl (cmdRE d ! 0)) = Inr vs) \<or>
         (\<exists>tok. parseParams lib (tl (cmdRE d ! 0)) = Inl (UnableToParseFloat tok) \<and>
                ParseFloat lib tok = Inl ErrRange)"
proof -
  from assms(1) obtain run l where
    ng: "num_groups (drop (length (cmd_letter d)) d) = Some (run, l)"
    and cm: "cmdRE d = [cmd_letter d @ run, cmd_letter d, l]"
    by (auto simp: cmdRE_def Let_def split: if_splits option.splits)
  from assms(2) cm obtain c where "cmd_letter d = [c]"
    by (cases "cmd_letter d") auto
  with cm have "tl (cmdRE d ! 0) = run" by simp
  with parseParams_run [OF ng, of lib "[]"] show ?thesis
    by (simp add: parseParams_def)
qed

theorem numeric_run_scans_witness:
  "3 \<le> length (cmdRE ''c1.5,2-3 z'') \<and> length (cmdRE ''c1.5,2-3 z'' ! 1) = 1 \<and>
   parseParams exact_lib (tl (cmdRE ''c1.5,2-3 z'' ! 0)) = Inr [3 / 2, 2, - 3]"
proof -
  have 1: "3 \<le> length (cmdRE ''c1.5,2-3 z'')" by code_simp
  have 2: "length (cmdRE ''c1.5,2-3 z'' ! 1) = 1" by code_simp
  have 3: "parseParams exact_lib (tl (cmdRE ''c1.5,2-3 z'' ! 0)) = Inr [3 / 2, 2, - 3]" by code_simp
  from numeric_run_scans [OF 1 2, of exact_lib] 1 2 3 show ?thesis by simp
qed

text \<open>
  The claim as stated also calls the failure of \<open>atof\<close> unreachable: a command with a
  number of 310 digits is matched by \<open>cmdRE\<close>, and the scanner ends in that failure.
\<close>

theorem float_conversion_fatal_counterexample:
  "cmdRE (CHR ''M'' # replicate 310 (CHR ''9'') @ ''Z'')
     = [CHR ''M'' # replicate 310 (CHR ''9''), ''M'', replicate 310 (CHR ''9'')] \<and>
   parseParams exact_lib (tl (cmdRE (CHR ''M'' # replicate 310 (CHR ''9'') @ ''Z'') ! 0))
     = Inl (UnableToParseFloat (replicate 310 (CHR ''9'')))"
  by code_simp

text \<open>
  The long s is matched as a command letter of two bytes, and \<open>m[0][1:]\<close> then starts
  with its second byte: the only way into the branch \<open>parseParams: unable to parse\<close>.
\<close>

lemma long_s_reaches_parseParams_failure:
  "ParsePath_loop exact_lib [CHR 0xC5, CHR 0xBF, CHR ''1''] [] 0
     = (Some (ParseParamsUnable [CHR 0xBF, CHR ''1'']), [], 0)"
  by code_simp

section \<open>Close commands only\<close>

text \<open>
  Claim C7. A path made only of close commands is consumed without error, one step per
  command. With more than one of them and no polarity marker of that length the warning
  is due, and for a glyph without a unicode attribute writing it dereferences
  \<open>g.Unicode\<close>: the call on the path \<open>z Zz\<close> appends the three steps and then panics
  instead of returning.
\<close>

theorem close_commands_panic_without_unicode:
  "ParsePath_loop exact_lib ''z Zz'' [] 0
   = (None, [\<lparr>Command = ''z'', Parameters = []\<rparr>, \<lparr>Command = ''Z'', Parameters = []\<rparr>,
             \<lparr>Command = ''z'', Parameters = []\<rparr>], 3) \<and>
   ParsePath exact_lib
     (Some \<lparr>HorizAdvX = 0, Unicode = None, D = Some ''z Zz'', DOrig = None,
            GerberLP = None, PathSteps = []\<rparr>)
   = (Panicked, [],
      Some \<lparr>HorizAdvX = 0, Unicode = None, D = Some ''z Zz'', DOrig = None,
            GerberLP = None,
            PathSteps = [\<lparr>Command = ''z'', Parameters = []\<rparr>,
                         \<lparr>Command = ''Z'', Parameters = []\<rparr>,
                         \<lparr>Command = ''z'', Parameters = []\<rparr>]\<rparr>)"
  by code_simp

text \<open>
  The scan itself is as specified. A text made only of close commands (a letter \<open>z\<close> or
  \<open>Z\<close>, each followed by any white space) is consumed without error from any state: one
  step per command, with the letter as written and no parameters, and the counter raised by
  their number. A glyph with such a path of at most one command and no override returns
  with these steps and logs nothing, and so does a glyph with any number of them that has
  a unicode attribute, apart from the warning where it is due.
\<close>

lemma close_commands_scan:
  assumes "list_all (\<lambda>(z, ws). (z = CHR ''z'' \<or> z = CHR ''Z'') \<and> list_all is_space ws) bs"
  shows "ParsePath_loop lib (close_text bs) steps numZs
           = (None, steps @ map (\<lambda>(z, ws). \<lparr>Command = [z], Parameters = []\<rparr>) bs,
              numZs + length bs) \<and>
         (D g = Some (close_text bs) \<and> (DOrig g = None \<or> DOrig g = Some []) \<and> length bs \<le> 1 \<longrightarrow>
            ParsePath lib (Some g)
              = (Returned, [],
                 Some (g\<lparr>PathSteps :=
                         PathSteps g @ map (\<lambda>(z, ws). \<lparr>Command = [z], Parameters = []\<rparr>) bs\<rparr>)))"
  using close_loop [OF assms]
  by (auto simp: ParsePath_def Let_def split: option.splits)

lemma close_commands_with_unicode:
  assumes "list_all (\<lambda>(z, ws). (z = CHR ''z'' \<or> z = CHR ''Z'') \<and> list_all is_space ws) bs"
    and "D g = Some (close_text bs)" and "DOrig g = None \<or> DOrig g = Some []"
    and "Unicode g = Some u"
  shows "ParsePath lib (Some g) =
           (Returned,
            (if 1 < length bs \<and>
                (case GerberLP g of None \<Rightarrow> True | Some lp \<Rightarrow> length lp \<noteq> length bs)
             then [case GerberLP g of
                     None \<Rightarrow> MismatchNil u (length bs)
                   | Some lp \<Rightarrow> Mismatch u (length bs) lp]
             else []),
            Some (g\<lparr>PathSteps :=
                     PathSteps g @ map (\<lambda>(z, ws). \<lparr>Command = [z], Parameters = []\<rparr>) bs\<rparr>))"
  using mismatch_warning_with_unicode [OF assms(2,3,4), of lib
      "PathSteps g @ map (\<lambda>(z, ws). \<lparr>Command = [z], Parameters = []\<rparr>) bs" "length bs"]
    close_loop [OF assms(1), of lib "PathSteps g" 0]
  by simp

section \<open>Termination\<close>

text \<open>
  Claim C9. Both loops are total functions, defined by recursion on the length of the
  text left. Every match of \<open>closeRE\<close>, \<open>cmdRE\<close> or \<open>numRE\<close> leaves a strictly shorter
  text, and every iteration that does not fail appends one element: so \<open>ParsePath\<close>'s
  loop appends at most \<open>len(d)\<close> steps and \<open>parseParams\<close> at most \<open>len(d)\<close> values,
  which bounds the iterations of each by the length of its input.
\<close>

theorem loops_make_progress:
  "(length (closeRE d) = 2 \<longrightarrow> length (drop (length (closeRE d ! 0)) d) < length d) \<and>
   (3 \<le> length (cmdRE d) \<longrightarrow> length (drop (length (cmdRE d ! 0)) d) < length d) \<and>
   (length (numRE d) = 2 \<longrightarrow> length (drop (length (numRE d ! 0)) d) < length d) \<and>
   length (fst (snd (ParsePath_loop lib d steps numZs))) \<le> length steps + length d \<and>
   (parseParams_loop lib d acc = Inr vs \<longrightarrow> length vs \<le> length acc + length d)"
proof -
  obtain e steps' numZs' where "ParsePath_loop lib d steps numZs = (e, steps', numZs')"
    by (cases "ParsePath_loop lib d steps numZs") auto
  from ParsePath_loop_steps_bound [OF this] this
  have "length (fst (snd (ParsePath_loop lib d steps numZs))) \<le> length steps + length d" by simp
  then show ?thesis
    using drop_shorter [OF closeRE_match, of d] drop_shorter [OF cmdRE_match, of d]
      drop_shorter [OF numRE_match, of d] parseParams_loop_bound [of lib d acc vs]
    by blast
qed

theorem loops_make_progress_witness:
  "length (closeRE ''z M1'') = 2 \<and> length (drop (length (closeRE ''z M1'' ! 0)) ''z M1'') = 2 \<and>
   3 \<le> length (cmdRE ''M1 2z'') \<and> length (drop (length (cmdRE ''M1 2z'' ! 0)) ''M1 2z'') = 1 \<and>
   length (numRE ''1 2'') = 2 \<and> length (drop (length (numRE ''1 2'' ! 0)) ''1 2'') = 1 \<and>
   parseParams_loop exact_lib ''1 2'' [] = Inr [1, 2]"
proof -
  have 1: "length (closeRE ''z M1'') = 2" by code_simp
  have 2: "3 \<le> length (cmdRE ''M1 2z'')" by code_simp
  have 3: "length (numRE ''1 2'') = 2" by code_simp
  have 4: "parseParams_loop exact_lib ''1 2'' [] = Inr [1, 2]" by code_simp
  have 5: "length (drop (length (closeRE ''z M1'' ! 0)) ''z M1'') = 2" by code_simp
  have 6: "length (drop (length (cmdRE ''M1 2z'' ! 0)) ''M1 2z'') = 1" by code_simp
  have 7: "length (drop (length (numRE ''1 2'' ! 0)) ''1 2'') = 1" by code_simp
  from loops_make_progress [of "''z M1''" exact_lib "[]" 0 "[]" "[]"]
    loops_make_progress [of "''M1 2z''" exact_lib "[]" 0 "[]" "[]"]
    loops_make_progress [of "''1 2''" exact_lib "[]" 0 "[]" "[1, 2]"]
    1 2 3 4 5 6 7
  show ?thesis by simp
qed

section \<open>Frame of \<open>ParsePath\<close>\<close>

text \<open>
  Claim C10. However a call on a glyph ends, the glyph it leaves is the one it was given
  with steps appended to \<open>PathSteps\<close>: \<open>HorizAdvX\<close>, \<open>Unicode\<close>, \<open>D\<close>, \<open>DOrig\<close> and
  \<open>GerberLP\<close> are unchanged and the earlier steps stay in front. When the call returns,
  the appended steps are those the scan of the effective path text yields from an empty
  list, in the order of the text.
\<close>

theorem ParsePath_frame:
  "ParsePath lib (Some g) = (ex, logs, gp) \<longrightarrow>
     (\<exists>new. gp = Some (g\<lparr>PathSteps := PathSteps g @ new\<rparr>) \<and>
        (\<forall>d. ex = Returned \<and> D g = Some d \<longrightarrow>
           new = fst (snd (ParsePath_loop lib
                   (case DOrig g of None \<Rightarrow> d | Some orig \<Rightarrow> if orig = [] then d else orig) [] 0))))"
proof
  assume r: "ParsePath lib (Some g) = (ex, logs, gp)"
  show "\<exists>new. gp = Some (g\<lparr>PathSteps := PathSteps g @ new\<rparr>) \<and>
        (\<forall>d. ex = Returned \<and> D g = Some d \<longrightarrow>
           new = fst (snd (ParsePath_loop lib
                   (case DOrig g of None \<Rightarrow> d | Some orig \<Rightarrow> if orig = [] then d else orig) [] 0)))"
  proof (cases "D g")
    case None
    with r have "gp = Some g" by (simp add: ParsePath_def)
    then have "gp = Some (g\<lparr>PathSteps := PathSteps g @ []\<rparr>)" by simp
    with None show ?thesis by (intro exI [of _ "[]"]) simp
  next
    case (Some d0)
    let ?d = "case DOrig g of None \<Rightarrow> d0 | Some orig \<Rightarrow> if orig = [] then d0 else orig"
    obtain e new k where l0: "ParsePath_loop lib ?d [] 0 = (e, new, k)"
      by (cases "ParsePath_loop lib ?d [] 0") auto
    have l: "ParsePath_loop lib ?d (PathSteps g) 0 = (e, PathSteps g @ new, k)"
      by (subst ParsePath_loop_appends) (simp add: l0)
    show ?thesis
    proof (cases "(case DOrig g of None \<Rightarrow> False | Some orig \<Rightarrow> orig \<noteq> []) \<and> Unicode g = None")
      case True
      with r Some have "gp = Some g" "ex = Panicked" by (simp_all add: ParsePath_def Let_def)
      then have "gp = Some (g\<lparr>PathSteps := PathSteps g @ []\<rparr>)" by simp
      with \<open>ex = Panicked\<close> show ?thesis by blast
    next
      case False
      have "gp = Some (g\<lparr>PathSteps := PathSteps g @ new\<rparr>)"
      proof (cases "DOrig g")
        case None
        with l have "ParsePath_loop lib d0 (PathSteps g) 0 = (e, PathSteps g @ new, k)" by simp
        with r Some None show ?thesis
          by (auto simp: ParsePath_def Let_def split: option.splits if_splits)
      next
        case (Some orig)
        show ?thesis
        proof (cases "orig = []")
          case True
          with l Some have "ParsePath_loop lib d0 (PathSteps g) 0 = (e, PathSteps g @ new, k)"
            by simp
          with r \<open>D g = Some d0\<close> Some True show ?thesis
            by (auto simp: ParsePath_def Let_def split: option.splits if_splits)
        next
          case ne: False
          with l Some have "ParsePath_loop lib orig (PathSteps g) 0 = (e, PathSteps g @ new, k)"
            by simp
          with r \<open>D g = Some d0\<close> Some ne False show ?thesis
            by (auto simp: ParsePath_def Let_def split: option.splits if_splits)
        qed
      qed
      then show ?thesis using Some l0 by auto
    qed
  qed
qed

theorem ParsePath_frame_witness:
  "ParsePath exact_lib
     (Some \<lparr>HorizAdvX = 7, Unicode = Some ''A'', D = Some ''M0,0'', DOrig = Some ''l1 2zZ'',
            GerberLP = Some ''x'', PathSteps = [\<lparr>Command = ''z'', Parameters = []\<rparr>]\<rparr>)
   = (Returned, [UsingDOrig ''A'', Mismatch ''A'' 2 ''x''],
      Some \<lparr>HorizAdvX = 7, Unicode = Some ''A'', D = Some ''M0,0'', DOrig = Some ''l1 2zZ'',
            GerberLP = Some ''x'',
            PathSteps = [\<lparr>Command = ''z'', Parameters = []\<rparr>,
                         \<lparr>Command = ''l'', Parameters = [1, 2]\<rparr>,
                         \<lparr>Command = ''z'', Parameters = []\<rparr>,
                         \<lparr>Command = ''Z'', Parameters = []\<rparr>]\<rparr>) \<and>
   fst (snd (ParsePath_loop exact_lib ''l1 2zZ'' [] 0))
   = [\<lparr>Command = ''l'', Parameters = [1, 2]\<rparr>, \<lparr>Command = ''z'', Parameters = []\<rparr>,
      \<lparr>Command = ''Z'', Parameters = []\<rparr>]"
proof -
  let ?g = "\<lparr>HorizAdvX = 7, Unicode = Some ''A'', D = Some ''M0,0'', DOrig = Some ''l1 2zZ'',
            GerberLP = Some ''x'', PathSteps = [\<lparr>Command = ''z'', Parameters = ([] :: rat list)\<rparr>]\<rparr>"
  have 1: "ParsePath exact_lib (Some ?g)
   = (Returned, [UsingDOrig ''A'', Mismatch ''A'' 2 ''x''],
      Some \<lparr>HorizAdvX = 7, Unicode = Some ''A'', D = Some ''M0,0'', DOrig = Some ''l1 2zZ'',
            GerberLP = Some ''x'',
            PathSteps = [\<lparr>Command = ''z'', Parameters = []\<rparr>,
                         \<lparr>Command = ''l'', Parameters = [1, 2]\<rparr>,
                         \<lparr>Command = ''z'', Parameters = []\<rparr>,
                         \<lparr>Command = ''Z'', Parameters = []\<rparr>]\<rparr>)"
    by code_simp
  from ParsePath_frame [of exact_lib ?g Returned "[UsingDOrig ''A'', Mismatch ''A'' 2 ''x'']"
      "Some \<lparr>HorizAdvX = 7, Unicode = Some ''A'', D = Some ''M0,0'', DOrig = Some ''l1 2zZ'',
            GerberLP = Some ''x'',
            PathSteps = [\<lparr>Command = ''z'', Parameters = []\<rparr>,
                         \<lparr>Command = ''l'', Parameters = [1, 2]\<rparr>,
                         \<lparr>Command = ''z'', Parameters = []\<rparr>,
                         \<lparr>Command = ''Z'', Parameters = []\<rparr>]\<rparr>"] 1
  show ?thesis by auto
qed

section \<open>Override precedence\<close>

text \<open>
  Claim C3, as amended. For a glyph that has a primary path (\<open>g.D\<close> is not \<open>nil\<close>) and a
  unicode attribute, a non-empty override is parsed in place of the primary path for the
  whole call: the call behaves as on the glyph whose primary path is the override, with
  the substitution notice written first. With an empty override the call behaves as with
  none: the primary path is parsed and no substitution notice is written.
\<close>

theorem override_precedence:
  assumes "D g = Some d0"
  shows "(DOrig g = Some orig \<and> orig \<noteq> [] \<and> Unicode g = Some u \<longrightarrow>
            ParsePath lib (Some g) =
              (case ParsePath lib (Some (g\<lparr>D := Some orig, DOrig := None\<rparr>)) of
                 (ex, logs, gp) \<Rightarrow>
                   (ex, UsingDOrig u # logs,
                    map_option (\<lambda>g'. g'\<lparr>D := Some d0, DOrig := Some orig\<rparr>) gp))) \<and>
         (DOrig g = Some [] \<longrightarrow>
            ParsePath lib (Some g) =
              (case ParsePath lib (Some (g\<lparr>DOrig := None\<rparr>)) of
                 (ex, logs, gp) \<Rightarrow> (ex, logs, map_option (\<lambda>g'. g'\<lparr>DOrig := Some []\<rparr>) gp)) \<and>
            (\<forall>u'. UsingDOrig u' \<notin> set (fst (snd (ParsePath lib (Some g))))))"
proof (intro conjI impI)
  assume a: "DOrig g = Some orig \<and> orig \<noteq> [] \<and> Unicode g = Some u"
  obtain e steps k where l: "ParsePath_loop lib orig (PathSteps g) 0 = (e, steps, k)"
    by (cases "ParsePath_loop lib orig (PathSteps g) 0") auto
  from a assms l show "ParsePath lib (Some g) =
              (case ParsePath lib (Some (g\<lparr>D := Some orig, DOrig := None\<rparr>)) of
                 (ex, logs, gp) \<Rightarrow>
                   (ex, UsingDOrig u # logs,
                    map_option (\<lambda>g'. g'\<lparr>D := Some d0, DOrig := Some orig\<rparr>) gp))"
    by (cases e; cases "GerberLP g") (simp_all add: ParsePath_def Let_def)
next
  assume a: "DOrig g = Some []"
  obtain e steps k where l: "ParsePath_loop lib d0 (PathSteps g) 0 = (e, steps, k)"
    by (cases "ParsePath_loop lib d0 (PathSteps g) 0") auto
  from a assms l show "ParsePath lib (Some g) =
              (case ParsePath lib (Some (g\<lparr>DOrig := None\<rparr>)) of
                 (ex, logs, gp) \<Rightarrow> (ex, logs, map_option (\<lambda>g'. g'\<lparr>DOrig := Some []\<rparr>) gp))"
    by (cases e; cases "GerberLP g"; cases "Unicode g") (simp_all add: ParsePath_def Let_def)
  from a assms l show "\<forall>u'. UsingDOrig u' \<notin> set (fst (snd (ParsePath lib (Some g))))"
    by (cases e; cases "GerberLP g"; cases "Unicode g") (simp_all add: ParsePath_def Let_def)
qed

theorem override_precedence_witness:
  "ParsePath exact_lib
     (Some \<lparr>HorizAdvX = 0, Unicode = Some ''A'', D = Some ''M1,2'', DOrig = Some ''l3z'',
            GerberLP = None, PathSteps = []\<rparr>)
   = (Returned, [UsingDOrig ''A''],
      Some \<lparr>HorizAdvX = 0, Unicode = Some ''A'', D = Some ''M1,2'', DOrig = Some ''l3z'',
            GerberLP = None,
            PathSteps = [\<lparr>Command = ''l'', Parameters = [3]\<rparr>,
                         \<lparr>Command = ''z'', Parameters = []\<rparr>]\<rparr>) \<and>
   ParsePath exact_lib
     (Some \<lparr>HorizAdvX = 0, Unicode = Some ''A'', D = Some ''M1,2'', DOrig = Some [],
            GerberLP = None, PathSteps = []\<rparr>)
   = (Returned, [],
      Some \<lparr>HorizAdvX = 0, Unicode = Some ''A'', D = Some ''M1,2'', DOrig = Some [],
            GerberLP = None, PathSteps = [\<lparr>Command = ''M'', Parameters = [1, 2]\<rparr>]\<rparr>)"
proof -
  let ?g1 = "\<lparr>HorizAdvX = 0, Unicode = Some ''A'', D = Some ''M1,2'', DOrig = Some ''l3z'',
            GerberLP = None, PathSteps = ([] :: rat PathStep list)\<rparr>"
  let ?g2 = "\<lparr>HorizAdvX = 0, Unicode = Some ''A'', D = Some ''M1,2'', DOrig = Some [],
            GerberLP = None, PathSteps = ([] :: rat PathStep list)\<rparr>"
  have 1: "D ?g1 = Some ''M1,2''" and 2: "D ?g2 = Some ''M1,2''" by simp_all
  have 3: "ParsePath exact_lib (Some (?g1\<lparr>D := Some ''l3z'', DOrig := None\<rparr>))
    = (Returned, [], Some \<lparr>HorizAdvX = 0, Unicode = Some ''A'', D = Some ''l3z'', DOrig = None,
            GerberLP = None,
            PathSteps = [\<lparr>Command = ''l'', Parameters = [3]\<rparr>,
                         \<lparr>Command = ''z'', Parameters = []\<rparr>]\<rparr>)"
    by code_simp
  have 4: "ParsePath exact_lib (Some (?g2\<lparr>DOrig := None\<rparr>))
    = (Returned, [], Some \<lparr>HorizAdvX = 0, Unicode = Some ''A'', D = Some ''M1,2'', DOrig = None,
            GerberLP = None, PathSteps = [\<lparr>Command = ''M'', Parameters = [1, 2]\<rparr>]\<rparr>)"
    by code_simp
  from override_precedence [OF 1, of "''l3z''" "''A''" exact_lib]
    override_precedence [OF 2, of "''l3z''" "''A''" exact_lib]
  show ?thesis unfolding 3 4 by simp
qed

text \<open>
  The claim as stated covers every glyph with a non-empty override. A glyph without a
  primary path returns at the first guard: the override is not parsed and nothing is logged.
\<close>

theorem override_without_primary_counterexample:
  "ParsePath exact_lib
     (Some \<lparr>HorizAdvX = 0, Unicode = Some ''A'', D = None, DOrig = Some ''z'',
            GerberLP = None, PathSteps = []\<rparr>)
   = (Returned, [],
      Some \<lparr>HorizAdvX = 0, Unicode = Some ''A'', D = None, DOrig = Some ''z'',
            GerberLP = None, PathSteps = []\<rparr>)"
  by code_simp

section \<open>The grammar of a numeric token\<close>

text \<open>
  Claim C5, as amended. \<open>numRE\<close> matches the whole of a text exactly when the text is:
  any white space, an optional minus, one or more digits, and then nothing or a dot and any
  digits, optionally followed by one separator character, which is a comma, a white-space
  character or a plus sign. What \<open>numRE\<close> matches at the start of a longer text is itself
  such a text, with the same number captured. So a leading dot, a leading plus, a second
  minus and an exponent are not part of any token.
\<close>

theorem numRE_grammar:
  "((\<exists>m1. numRE d = [d, m1]) \<longleftrightarrow>
      (\<exists>ws sg ds dot fs sep.
         d = ws @ sg @ ds @ dot @ fs @ sep \<and> list_all is_space ws \<and>
         (sg = [] \<or> sg = ''-'') \<and> ds \<noteq> [] \<and> list_all is_digit ds \<and>
         (dot = [] \<and> fs = [] \<or> dot = ''.'' \<and> list_all is_digit fs) \<and>
         (sep = [] \<or> (\<exists>c. sep = [c] \<and> (c = CHR '','' \<or> is_space c \<or> c = CHR ''+''))))) \<and>
   (numRE d = [m0, m1] \<longrightarrow> (\<exists>y. d = m0 @ y) \<and> numRE m0 = [m0, m1])"
proof (intro conjI iffI impI)
  assume "\<exists>m1. numRE d = [d, m1]"
  then obtain tok where "num_group d = Some (d, tok)"
    by (auto simp: numRE_def split: option.splits)
  from num_group_SomeD [OF this] obtain ws sg ds dot fs sep y where
    d: "d = d @ y" "d = ws @ tok @ sep" "tok = sg @ ds @ dot @ fs"
    and ws: "list_all is_space ws" and np: "number_parts sg ds dot fs" and so: "sep_ok dot sep y"
    by blast
  from so have "sep = [] \<or> (\<exists>c. sep = [c] \<and> (c = CHR '','' \<or> is_space c \<or> c = CHR ''+''))"
    by (auto simp: sep_ok_def is_sep_def)
  moreover from d have "d = ws @ sg @ ds @ dot @ fs @ sep" by simp
  ultimately have "d = ws @ sg @ ds @ dot @ fs @ sep \<and> list_all is_space ws \<and>
         (sg = [] \<or> sg = ''-'') \<and> ds \<noteq> [] \<and> list_all is_digit ds \<and>
         (dot = [] \<and> fs = [] \<or> dot = ''.'' \<and> list_all is_digit fs) \<and>
         (sep = [] \<or> (\<exists>c. sep = [c] \<and> (c = CHR '','' \<or> is_space c \<or> c = CHR ''+'')))"
    using ws np unfolding number_parts_def by blast
  then show "\<exists>ws sg ds dot fs sep.
         d = ws @ sg @ ds @ dot @ fs @ sep \<and> list_all is_space ws \<and>
         (sg = [] \<or> sg = ''-'') \<and> ds \<noteq> [] \<and> list_all is_digit ds \<and>
         (dot = [] \<and> fs = [] \<or> dot = ''.'' \<and> list_all is_digit fs) \<and>
         (sep = [] \<or> (\<exists>c. sep = [c] \<and> (c = CHR '','' \<or> is_space c \<or> c = CHR ''+'')))"
    by (intro exI)
next
  assume "\<exists>ws sg ds dot fs sep.
         d = ws @ sg @ ds @ dot @ fs @ sep \<and> list_all is_space ws \<and>
         (sg = [] \<or> sg = ''-'') \<and> ds \<noteq> [] \<and> list_all is_digit ds \<and>
         (dot = [] \<and> fs = [] \<or> dot = ''.'' \<and> list_all is_digit fs) \<and>
         (sep = [] \<or> (\<exists>c. sep = [c] \<and> (c = CHR '','' \<or> is_space c \<or> c = CHR ''+'')))"
  then obtain ws sg ds dot fs sep where
    d: "d = ws @ sg @ ds @ dot @ fs @ sep" and ws: "list_all is_space ws"
    and np: "number_parts sg ds dot fs"
    and sep: "sep = [] \<or> (\<exists>c. sep = [c] \<and> (c = CHR '','' \<or> is_space c \<or> c = CHR ''+''))"
    unfolding number_parts_def by blast
  from sep have "sep_ok dot sep []" by (auto simp: sep_ok_def stops_def is_sep_def)
  from num_group_SomeI [OF ws np this] d
  have "num_group d = Some (d, sg @ ds @ dot @ fs)" by simp
  then show "\<exists>m1. numRE d = [d, m1]" by (simp add: numRE_def)
next
  assume "numRE d = [m0, m1]"
  then have ng: "num_group d = Some (m0, m1)"
    by (auto simp: numRE_def split: option.splits)
  from num_group_match_prefix(1) [OF ng] show "\<exists>y. d = m0 @ y" .
next
  assume "numRE d = [m0, m1]"
  then have ng: "num_group d = Some (m0, m1)"
    by (auto simp: numRE_def split: option.splits)
  from num_group_match_prefix(1) [OF ng] obtain y where "d = m0 @ [] @ y" by auto
  with ng have "num_group (m0 @ [] @ y) = Some (m0, m1)" by simp
  from num_group_prefix [OF this] show "numRE m0 = [m0, m1]" by (simp add: numRE_def)
qed

theorem numRE_grammar_witness:
  "numRE [CHR 0x09, CHR ''-'', CHR ''1'', CHR ''2'', CHR ''.'', CHR ''5'', CHR ''+'']
     = [[CHR 0x09, CHR ''-'', CHR ''1'', CHR ''2'', CHR ''.'', CHR ''5'', CHR ''+''], ''-12.5''] \<and>
   numRE ''7.e3'' = [''7.'', ''7.''] \<and> numRE ''7.'' = [''7.'', ''7.''] \<and>
   numRE ''.5'' = [] \<and> numRE ''+5'' = [] \<and> numRE ''--5'' = [] \<and> numRE ''e3'' = []"
proof -
  let ?d = "[CHR 0x09, CHR ''-'', CHR ''1'', CHR ''2'', CHR ''.'', CHR ''5'', CHR ''+'']"
  have 1: "numRE ?d = [?d, ''-12.5'']" by code_simp
  have 2: "numRE ''7.e3'' = [''7.'', ''7.'']" by code_simp
  have 3: "numRE ''.5'' = [] \<and> numRE ''+5'' = [] \<and> numRE ''--5'' = [] \<and> numRE ''e3'' = []"
    by code_simp
  from numRE_grammar [of ?d "[]" "[]"] 1
  have "\<exists>ws sg ds dot fs sep.
         ?d = ws @ sg @ ds @ dot @ fs @ sep \<and> list_all is_space ws \<and>
         (sg = [] \<or> sg = ''-'') \<and> ds \<noteq> [] \<and> list_all is_digit ds \<and>
         (dot = [] \<and> fs = [] \<or> dot = ''.'' \<and> list_all is_digit fs) \<and>
         (sep = [] \<or> (\<exists>c. sep = [c] \<and> (c = CHR '','' \<or> is_space c \<or> c = CHR ''+'')))"
    by blast
  from numRE_grammar [of "''7.e3''" "''7.''" "''7.''"] 2
  have "numRE ''7.'' = [''7.'', ''7.'']" by simp
  with 1 2 3 show ?thesis by simp
qed

text \<open>
  The claim as stated admits a comma or white space only as separator, and nothing before
  the number: the plus sign is in the bracket expression \<open>[,\s+]\<close> too, so that \<open>1+2\<close>
  scans as two numbers, and \<open>numRE\<close> starts with \<open>\s*\<close>.
\<close>

theorem plus_separator_counterexample:
  "numRE ''1+2'' = [''1+'', ''1''] \<and> parseParams exact_lib ''1+2'' = Inr [1, 2] \<and>
   numRE ''  3'' = [''  3'', ''3'']"
  by code_simp

end
